theory Spec2Isabelle
  imports Main
begin

section \<open>Strings, chunks and lines\<close>

text \<open>
  A JavaScript string is modelled as a \<^typ>\<open>string\<close>; text outside ASCII stands as its
  UTF-8 bytes. A \<open>Buffer\<close> chunk is the string \<open>data.toString()\<close> gives. JavaScript
  numbers are modelled as integers (\<^typ>\<open>int\<close>): fractions, NaN and the infinities are
  outside the model.
\<close>

definition nl :: char where
  "nl = CHR 0x0A"

definition dq :: char where
  "dq = CHR 0x22"

text \<open>\<open>s.split("\n")\<close>: the pieces between line feeds; never empty, \<open>"".split("\n")\<close> is \<open>[""]\<close>.\<close>

fun split_nl :: "string \<Rightarrow> string list" where
  "split_nl [] = [[]]"
| "split_nl (c # cs) =
     (if c = nl then [] # split_nl cs
      else (case split_nl cs of [] \<Rightarrow> [[c]] | l # ls \<Rightarrow> (c # l) # ls))"

text \<open>\<open>a || b\<close> on strings: the empty string is falsy.\<close>

definition or_else :: "string \<Rightarrow> string \<Rightarrow> string" where
  "or_else a b = (if a = [] then b else a)"

text \<open>\<open>(x as number) || d\<close> on an optional number: \<open>undefined\<close> and \<open>0\<close> are falsy.\<close>

definition num_or :: "int option \<Rightarrow> int \<Rightarrow> int" where
  "num_or x d = (case x of None \<Rightarrow> d | Some v \<Rightarrow> if v = 0 then d else v)"

text \<open>Decimal rendering of an integer inside a template literal (all digits; JavaScript
  switches to exponent form from \<open>1e21\<close> on, which only the printed \<open>--last\<close> argument
  would show).\<close>

fun show_nat :: "nat \<Rightarrow> string" where
  "show_nat n =
     (if n < 10 then [char_of (48 + n)]
      else show_nat (n div 10) @ [char_of (48 + n mod 10)])"

declare show_nat.simps [simp del]

definition show_int :: "int \<Rightarrow> string" where
  "show_int i = (if i < 0 then CHR ''-'' # show_nat (nat (- i)) else show_nat (nat i))"

text \<open>\<open>toLowerCase\<close>, on the ASCII letters.\<close>

definition lower_char :: "char \<Rightarrow> char" where
  "lower_char c =
     (if 65 \<le> (of_char c :: nat) \<and> (of_char c :: nat) \<le> 90
      then char_of ((of_char c :: nat) + 32) else c)"

definition toLowerCase :: "string \<Rightarrow> string" where
  "toLowerCase s = map lower_char s"

text \<open>\<open>hay.includes(needle)\<close>: the needle occurs as a contiguous substring.\<close>

fun starts_with :: "string \<Rightarrow> string \<Rightarrow> bool" where
  "starts_with hay [] = True"
| "starts_with [] (n # ns) = False"
| "starts_with (h # hs) (n # ns) = (h = n \<and> starts_with hs ns)"

fun includes_str :: "string \<Rightarrow> string \<Rightarrow> bool" where
  "includes_str [] needle = (needle = [])"
| "includes_str (h # hs) needle = (starts_with (h # hs) needle \<or> includes_str hs needle)"

text \<open>\<open>line.trim()\<close> is truthy when the line has a character that is not white space
  (ASCII white space here).\<close>

definition is_space :: "char \<Rightarrow> bool" where
  "is_space c = (c \<in> set [CHR 0x20, CHR 0x09, CHR 0x0A, CHR 0x0B, CHR 0x0C, CHR 0x0D])"

definition trim_truthy :: "string \<Rightarrow> bool" where
  "trim_truthy line = (\<exists>c \<in> set line. \<not> is_space c)"

text \<open>\<open>xs.join(sep)\<close>.\<close>

fun join :: "string \<Rightarrow> string list \<Rightarrow> string" where
  "join sep [] = []"
| "join sep [x] = x"
| "join sep (x # y # ys) = x @ sep @ join sep (y # ys)"

section \<open>Matchers\<close>

text \<open>
  \<open>new RegExp(pattern, "i")\<close> belongs to the JavaScript engine. It is a parameter of the
  model: for a pattern it gives either the text of the exception thrown (\<open>Inl\<close>) or the
  predicate \<open>regex.test\<close> of the compiled expression (\<open>Inr\<close>; without the \<open>g\<close> flag
  \<open>test\<close> keeps no state between calls).
\<close>

type_synonym matcher = "string \<Rightarrow> bool"

type_synonym regexp_engine = "string \<Rightarrow> string + matcher"

text \<open>The plain matcher of \<open>searchLogs\<close> and \<open>watchForPattern\<close>:
  \<open>line.toLowerCase().includes(queryLower)\<close>.\<close>

definition plain_matcher :: "string \<Rightarrow> matcher" where
  "plain_matcher query = (\<lambda>line. includes_str (toLowerCase line) (toLowerCase query))"

definition make_matcher :: "regexp_engine \<Rightarrow> string \<Rightarrow> bool \<Rightarrow> string + matcher" where
  "make_matcher RegExp pattern useRegex =
     (if useRegex then RegExp pattern else Inr (plain_matcher pattern))"

section \<open>Sessions: one call, its child process and its promise\<close>

text \<open>
  Every acquisition function returns \<open>new Promise((resolve) => ...)\<close>. The executor runs
  to its end at once: it spawns the child, attaches the listeners and arms the timer.
  After that the call lives through the events the runtime delivers, one at a time:
  a chunk on the child's stdout or stderr, the child's \<open>close\<close>, the child's \<open>error\<close>
  (spawn failure), and the timer.
\<close>

datatype event = Stdout string | Stderr string | Close | Error string | Timeout

text \<open>
  The state of one call. \<open>spawned\<close> lists the processes started (command and arguments),
  \<open>listening\<close> says whether the listeners on the child were attached, \<open>timer\<close> is the delay
  in milliseconds of the armed \<open>setTimeout\<close>, \<open>output_buf\<close> is the variable \<open>output\<close> of the source,
  \<open>resolved\<close> is the value the promise was resolved with, \<open>kills\<close> counts the
  \<open>child.kill\<close> calls (SIGTERM, which is also the default signal of \<open>child.kill()\<close>), and
  \<open>unhandled\<close> records an \<open>error\<close> event emitted on a child with no \<open>error\<close> listener,
  which the Node.js event emitter throws as an uncaught exception.
\<close>

record 'r session =
  spawned :: "(string \<times> string list) list"
  listening :: bool
  timer :: "int option"
  output_buf :: string
  resolved :: "'r option"
  kills :: nat
  unhandled :: bool

record 'r counted = "'r session" +
  lineCount :: nat

definition fresh :: "'r session" where
  "fresh = \<lparr>spawned = [], listening = False, timer = None, output_buf = [],
            resolved = None, kills = 0, unhandled = False\<rparr>"

definition fresh_counted :: "'r counted" where
  "fresh_counted = session.extend fresh (counted.fields 0)"

definition spawn :: "string \<Rightarrow> string list \<Rightarrow> ('r, 'z) session_scheme \<Rightarrow> ('r, 'z) session_scheme" where
  "spawn cmd args s = s\<lparr>spawned := spawned s @ [(cmd, args)]\<rparr>"

definition listen :: "('r, 'z) session_scheme \<Rightarrow> ('r, 'z) session_scheme" where
  "listen s = s\<lparr>listening := True\<rparr>"

definition setTimeout :: "int \<Rightarrow> ('r, 'z) session_scheme \<Rightarrow> ('r, 'z) session_scheme" where
  "setTimeout ms s = s\<lparr>timer := Some ms\<rparr>"

text \<open>Resolving a promise settles it once; a later \<open>resolve\<close> does nothing.\<close>

definition resolve :: "'r \<Rightarrow> ('r, 'z) session_scheme \<Rightarrow> ('r, 'z) session_scheme" where
  "resolve r s = (if resolved s = None then s\<lparr>resolved := Some r\<rparr> else s)"

definition kill :: "('r, 'z) session_scheme \<Rightarrow> ('r, 'z) session_scheme" where
  "kill s = s\<lparr>kills := kills s + 1\<rparr>"

definition append_output :: "string \<Rightarrow> ('r, 'z) session_scheme \<Rightarrow> ('r, 'z) session_scheme" where
  "append_output t s = s\<lparr>output_buf := output_buf s @ t\<rparr>"

text \<open>
  Delivery of one event to a call whose handlers are \<open>on_event\<close>: the timer fires only when
  it was armed; without listeners a chunk or a \<open>close\<close> goes nowhere and an \<open>error\<close> is
  unhandled.
\<close>

definition deliver ::
  "(event \<Rightarrow> ('r, 'z) session_scheme \<Rightarrow> ('r, 'z) session_scheme) \<Rightarrow> event \<Rightarrow>
   ('r, 'z) session_scheme \<Rightarrow> ('r, 'z) session_scheme" where
  "deliver on_event ev s =
     (case ev of
        Timeout \<Rightarrow> (if timer s = None then s else on_event Timeout s)
      | Error msg \<Rightarrow> (if listening s then on_event (Error msg) s else s\<lparr>unhandled := True\<rparr>)
      | _ \<Rightarrow> (if listening s then on_event ev s else s))"

definition run ::
  "(event \<Rightarrow> ('r, 'z) session_scheme \<Rightarrow> ('r, 'z) session_scheme) \<Rightarrow> event list \<Rightarrow>
   ('r, 'z) session_scheme \<Rightarrow> ('r, 'z) session_scheme" where
  "run on_event evs s = foldl (\<lambda>s ev. deliver on_event ev s) s evs"

text \<open>The lines a stdout handler's loop goes through over successive chunks: each chunk
  is split on its own.\<close>

definition stream_lines :: "string list \<Rightarrow> string list" where
  "stream_lines chunks = concat (map split_nl chunks)"

section \<open>Bounded fetch: \<open>getMacLogs\<close>\<close>

text \<open>The body of the loop over the lines of a chunk.\<close>

definition collect_line :: "int \<Rightarrow> ('r, 'z) counted_scheme \<Rightarrow> string \<Rightarrow> ('r, 'z) counted_scheme" where
  "collect_line maxLines s line =
     (if int (lineCount s) < maxLines
      then s\<lparr>output_buf := output_buf s @ line @ [nl], lineCount := lineCount s + 1\<rparr>
      else s)"

definition getMacLogs_args :: "string option \<Rightarrow> string option \<Rightarrow> int \<Rightarrow> string list" where
  "getMacLogs_args subsystem process lastMinutes =
     (let args = [''show'', ''--last'', show_int lastMinutes @ ''m'', ''--style'', ''compact''];
          predicates =
            (case subsystem of None \<Rightarrow> [] | Some sub \<Rightarrow>
               if sub = [] then [] else [''subsystem == '' @ [dq] @ sub @ [dq]]) @
            (case process of None \<Rightarrow> [] | Some p \<Rightarrow>
               if p = [] then [] else [''processImagePath CONTAINS '' @ [dq] @ p @ [dq]])
      in if length predicates > 0 then args @ [''--predicate'', join '' AND '' predicates]
         else args)"

definition getMacLogs_event :: "int \<Rightarrow> event \<Rightarrow> string counted \<Rightarrow> string counted" where
  "getMacLogs_event maxLines ev s =
     (case ev of
        Stdout data \<Rightarrow> foldl (collect_line maxLines) s (split_nl data)
      | Stderr data \<Rightarrow> append_output (''[stderr] '' @ data) s
      | Close \<Rightarrow> resolve (or_else (output_buf s) ''No logs found'') s
      | Error msg \<Rightarrow> resolve (''Error: '' @ msg) s
      | Timeout \<Rightarrow> (let s' = kill s in resolve (or_else (output_buf s') ''Timeout'') s'))"

definition getMacLogs ::
  "string option \<Rightarrow> string option \<Rightarrow> int \<Rightarrow> int \<Rightarrow> event list \<Rightarrow> string counted" where
  "getMacLogs subsystem process lastMinutes maxLines evs =
     run (getMacLogs_event maxLines) evs
       (setTimeout 15000 (listen
          (spawn ''log'' (getMacLogs_args subsystem process lastMinutes) fresh_counted)))"

section \<open>Search while capturing: \<open>searchLogs\<close>\<close>

definition search_line :: "matcher \<Rightarrow> int \<Rightarrow> ('r, 'z) counted_scheme \<Rightarrow> string \<Rightarrow> ('r, 'z) counted_scheme" where
  "search_line matcher maxLines s line =
     (if matcher line \<and> int (lineCount s) < maxLines
      then s\<lparr>output_buf := output_buf s @ line @ [nl], lineCount := lineCount s + 1\<rparr>
      else s)"

definition searchLogs_event :: "string \<Rightarrow> matcher \<Rightarrow> int \<Rightarrow> event \<Rightarrow> string counted \<Rightarrow> string counted" where
  "searchLogs_event query matcher maxLines ev s =
     (case ev of
        Stdout data \<Rightarrow> foldl (search_line matcher maxLines) s (split_nl data)
      | Stderr data \<Rightarrow> s
      | Close \<Rightarrow> resolve (or_else (output_buf s) (''No logs matching '' @ [dq] @ query @ [dq] @ '' found'')) s
      | Error msg \<Rightarrow> resolve (''Error: '' @ msg) s
      | Timeout \<Rightarrow> (let s' = kill s in resolve (or_else (output_buf s') ''Timeout'') s'))"

text \<open>
  The executor of \<open>searchLogs\<close>, in the order of its statements: the child is spawned first;
  then the matcher is built, and a pattern the engine rejects resolves the promise and
  returns, before any listener is attached or the timer armed.
\<close>

definition searchLogs ::
  "regexp_engine \<Rightarrow> string \<Rightarrow> int \<Rightarrow> int \<Rightarrow> bool \<Rightarrow> event list \<Rightarrow> string counted" where
  "searchLogs RegExp query lastMinutes maxLines useRegex evs =
     (let s = spawn ''log'' [''show'', ''--last'', show_int lastMinutes @ ''m'', ''--style'', ''compact'']
                fresh_counted
      in case make_matcher RegExp query useRegex of
           Inl e \<Rightarrow>
             run (\<lambda>ev s. s) evs
               (resolve (''Invalid regex pattern: '' @ query @ [nl] @ ''Error: '' @ e) s)
         | Inr matcher \<Rightarrow>
             run (searchLogs_event query matcher maxLines) evs (setTimeout 30000 (listen s)))"

section \<open>Bounded fetch by level: \<open>getLogsByLevel\<close>\<close>

definition getLogsByLevel_args :: "string \<Rightarrow> string option \<Rightarrow> int \<Rightarrow> string list" where
  "getLogsByLevel_args level process lastMinutes =
     (let args = [''show'', ''--last'', show_int lastMinutes @ ''m'', ''--style'', ''compact''];
          (predicates, args) =
            (if level = ''fault'' then ([''messageType == fault''], args)
             else if level = ''error'' then ([''(messageType == error OR messageType == fault)''], args)
             else if level = ''warning'' then ([''messageType == default''], args)
             else if level = ''info'' then ([''messageType == info''], args)
             else if level = ''debug'' then ([''messageType == debug''], args @ [''--info'', ''--debug''])
             else ([''messageType == default''], args));
          predicates = predicates @
            (case process of None \<Rightarrow> [] | Some p \<Rightarrow>
               if p = [] then [] else [''processImagePath CONTAINS '' @ [dq] @ p @ [dq]])
      in if length predicates > 0 then args @ [''--predicate'', join '' AND '' predicates]
         else args)"

definition getLogsByLevel_event :: "string \<Rightarrow> int \<Rightarrow> event \<Rightarrow> string counted \<Rightarrow> string counted" where
  "getLogsByLevel_event level maxLines ev s =
     (case ev of
        Stdout data \<Rightarrow> foldl (collect_line maxLines) s (split_nl data)
      | Stderr data \<Rightarrow> s
      | Close \<Rightarrow> resolve (or_else (output_buf s) (''No '' @ level @ '' logs found'')) s
      | Error msg \<Rightarrow> resolve (''Error: '' @ msg) s
      | Timeout \<Rightarrow> (let s' = kill s in resolve (or_else (output_buf s') ''Timeout'') s'))"

definition getLogsByLevel ::
  "string \<Rightarrow> string option \<Rightarrow> int \<Rightarrow> int \<Rightarrow> event list \<Rightarrow> string counted" where
  "getLogsByLevel level process lastMinutes maxLines evs =
     run (getLogsByLevel_event level maxLines) evs
       (setTimeout 15000 (listen
          (spawn ''log'' (getLogsByLevel_args level process lastMinutes) fresh_counted)))"

section \<open>Device logs: \<open>getDeviceLogs\<close>\<close>

text \<open>The loop body of the device fetch also drops lines that are blank after \<open>trim()\<close>.\<close>

definition device_line :: "int \<Rightarrow> ('r, 'z) counted_scheme \<Rightarrow> string \<Rightarrow> ('r, 'z) counted_scheme" where
  "device_line maxLines s line =
     (if int (lineCount s) < maxLines \<and> trim_truthy line
      then s\<lparr>output_buf := output_buf s @ line @ [nl], lineCount := lineCount s + 1\<rparr>
      else s)"

text \<open>The collection window of the device fetch, in milliseconds.\<close>

definition collectDuration :: "int \<Rightarrow> int" where
  "collectDuration lastMinutes = min (lastMinutes * 1000) 10000"

definition warning_sign :: string where
  "warning_sign = [CHR 0xE2, CHR 0x9A, CHR 0xA0, CHR 0xEF, CHR 0xB8, CHR 0x8F]"

definition idevicesyslog_missing :: string where
  "idevicesyslog_missing =
     warning_sign @ '' idevicesyslog not found.'' @ [nl, nl] @
     ''To get iOS device logs, install libimobiledevice:'' @ [nl] @
     ''  brew install libimobiledevice'' @ [nl, nl] @
     ''Then ensure your device is:'' @ [nl] @
     ''  1. Connected via USB'' @ [nl] @
     ''  2. Unlocked'' @ [nl] @
     ''  3. Trusted (tap '' @ [dq] @ ''Trust'' @ [dq] @ '' on device when prompted)''"

definition getDeviceLogs_event :: "string \<Rightarrow> int \<Rightarrow> event \<Rightarrow> string counted \<Rightarrow> string counted" where
  "getDeviceLogs_event udid maxLines ev s =
     (case ev of
        Stdout data \<Rightarrow> foldl (device_line maxLines) s (split_nl data)
      | Stderr errMsg \<Rightarrow>
          (if \<not> includes_str errMsg ''waiting'' then append_output (''[stderr] '' @ errMsg) s else s)
      | Close \<Rightarrow> s
      | Error msg \<Rightarrow>
          resolve (''Error: '' @ msg @ [nl, nl] @ ''Make sure the device is connected and trusted.'') s
      | Timeout \<Rightarrow>
          (let s' = kill s in resolve (or_else (output_buf s') (''No logs captured from device '' @ udid)) s'))"

text \<open>
  \<open>hasIdevicesyslog\<close> is what \<open>execSync("which idevicesyslog")\<close> finds on the host. The
  function attaches no \<open>close\<close> listener: only the timer and \<open>error\<close> resolve it.
\<close>

definition getDeviceLogs ::
  "bool \<Rightarrow> string \<Rightarrow> string option \<Rightarrow> int \<Rightarrow> int \<Rightarrow> event list \<Rightarrow> string counted" where
  "getDeviceLogs hasIdevicesyslog udid process lastMinutes maxLines evs =
     (if hasIdevicesyslog then
        run (getDeviceLogs_event udid maxLines) evs
          (setTimeout (collectDuration lastMinutes) (listen
             (spawn ''idevicesyslog''
                ([''-u'', udid] @
                 (case process of None \<Rightarrow> [] | Some p \<Rightarrow> if p = [] then [] else [''-m'', p]))
                fresh_counted)))
      else run (\<lambda>ev s. s) evs (resolve idevicesyslog_missing fresh_counted))"

section \<open>Simulator logs: \<open>getSimulatorLogs\<close> and \<open>streamSimulatorLogs\<close>\<close>

record simulator =
  sim_udid :: string
  sim_name :: string
  sim_state :: string
  sim_runtime :: string
  isAvailable :: bool

definition getSimulatorLogs_event :: "simulator \<Rightarrow> int \<Rightarrow> event \<Rightarrow> string counted \<Rightarrow> string counted" where
  "getSimulatorLogs_event sim maxLines ev s =
     (case ev of
        Stdout data \<Rightarrow> foldl (collect_line maxLines) s (split_nl data)
      | Stderr data \<Rightarrow> append_output (''[stderr] '' @ data) s
      | Close \<Rightarrow> resolve (or_else (output_buf s) (''No logs found for simulator '' @ sim_name sim)) s
      | Error msg \<Rightarrow> resolve (''Error: '' @ msg) s
      | Timeout \<Rightarrow>
          (let s' = kill s in resolve (or_else (output_buf s') ''Timeout waiting for simulator logs'') s'))"

text \<open>\<open>findSimulator\<close> looks the identifier up in the list \<open>xcrun simctl\<close> prints; the lookup
  is a parameter.\<close>

definition getSimulatorLogs ::
  "(string \<Rightarrow> simulator option) \<Rightarrow> string \<Rightarrow> string option \<Rightarrow> int \<Rightarrow> int \<Rightarrow> event list \<Rightarrow>
   string counted" where
  "getSimulatorLogs findSimulator udid process lastMinutes maxLines evs =
     (case findSimulator udid of
        None \<Rightarrow>
          run (\<lambda>ev s. s) evs
            (resolve (''Simulator with identifier '' @ [dq] @ udid @ [dq] @ '' not found'') fresh_counted)
      | Some sim \<Rightarrow>
          if sim_state sim \<noteq> ''Booted'' then
            run (\<lambda>ev s. s) evs
              (resolve
                 (''Simulator '' @ [dq] @ sim_name sim @ [dq] @ '' is not running (state: '' @
                  sim_state sim @ '').'' @ [nl] @ ''Boot it first with: xcrun simctl boot '' @
                  [dq] @ sim_udid sim @ [dq])
                 fresh_counted)
          else
            run (getSimulatorLogs_event sim maxLines) evs
              (setTimeout 15000 (listen
                 (spawn ''xcrun''
                    ([''simctl'', ''spawn'', udid, ''log'', ''show'', ''--last'',
                      show_int lastMinutes @ ''m'', ''--style'', ''compact''] @
                     (case process of None \<Rightarrow> [] | Some p \<Rightarrow>
                        if p = [] then []
                        else [''--predicate'', ''processImagePath CONTAINS '' @ [dq] @ p @ [dq]]))
                    fresh_counted))))"

definition streamSimulatorLogs_event :: "simulator \<Rightarrow> event \<Rightarrow> string session \<Rightarrow> string session" where
  "streamSimulatorLogs_event sim ev s =
     (case ev of
        Stdout data \<Rightarrow> append_output data s
      | Stderr data \<Rightarrow> append_output data s
      | Close \<Rightarrow> s
      | Error msg \<Rightarrow> resolve (''Error: '' @ msg) s
      | Timeout \<Rightarrow>
          (let s' = kill s
           in resolve (or_else (output_buf s') (''No logs captured from simulator '' @ sim_name sim)) s'))"

definition streamSimulatorLogs ::
  "(string \<Rightarrow> simulator option) \<Rightarrow> string \<Rightarrow> string option \<Rightarrow> int \<Rightarrow> event list \<Rightarrow> string session" where
  "streamSimulatorLogs findSimulator udid process durationSeconds evs =
     (case findSimulator udid of
        None \<Rightarrow>
          run (\<lambda>ev s. s) evs
            (resolve (''Simulator with identifier '' @ [dq] @ udid @ [dq] @ '' not found'') fresh)
      | Some sim \<Rightarrow>
          if sim_state sim \<noteq> ''Booted'' then
            run (\<lambda>ev s. s) evs
              (resolve
                 (''Simulator '' @ [dq] @ sim_name sim @ [dq] @ '' is not running.'' @ [nl] @
                  ''Boot it first with: xcrun simctl boot '' @ [dq] @ sim_udid sim @ [dq])
                 fresh)
          else
            run (streamSimulatorLogs_event sim) evs
              (setTimeout (durationSeconds * 1000) (listen
                 (spawn ''xcrun''
                    ([''simctl'', ''spawn'', udid, ''log'', ''stream'', ''--style'', ''compact''] @
                     (case process of None \<Rightarrow> [] | Some p \<Rightarrow>
                        if p = [] then []
                        else [''--predicate'', ''processImagePath CONTAINS '' @ [dq] @ p @ [dq]]))
                    fresh))))"

section \<open>Timed stream: \<open>streamDeviceLogs\<close>\<close>

definition streamDeviceLogs_event :: "event \<Rightarrow> string session \<Rightarrow> string session" where
  "streamDeviceLogs_event ev s =
     (case ev of
        Stdout data \<Rightarrow> append_output data s
      | Stderr data \<Rightarrow> append_output data s
      | Close \<Rightarrow> s
      | Error msg \<Rightarrow> resolve (''Error: '' @ msg) s
      | Timeout \<Rightarrow>
          (let s' = kill s in resolve (or_else (output_buf s') ''No logs captured during stream'') s'))"

text \<open>When \<open>which idevicesyslog\<close> fails the \<open>catch\<close> branch spawns \<open>log stream\<close> instead.\<close>

definition streamDeviceLogs ::
  "bool \<Rightarrow> string \<Rightarrow> string option \<Rightarrow> int \<Rightarrow> event list \<Rightarrow> string session" where
  "streamDeviceLogs hasIdevicesyslog udid process durationSeconds evs =
     run streamDeviceLogs_event evs
       (setTimeout (durationSeconds * 1000) (listen
          ((if hasIdevicesyslog then
              spawn ''idevicesyslog''
                ([''-u'', udid] @
                 (case process of None \<Rightarrow> [] | Some p \<Rightarrow> if p = [] then [] else [''-p'', p]))
            else
              spawn ''log''
                ([''stream'', ''--style'', ''compact''] @
                 (case process of None \<Rightarrow> [] | Some p \<Rightarrow>
                    if p = [] then []
                    else [''--predicate'', ''processImagePath CONTAINS '' @ [dq] @ p @ [dq]])))
             fresh)))"

section \<open>Watch until match: \<open>watchForPattern\<close>\<close>

record watch_result =
  r_found :: bool
  r_matchedLine :: string
  allOutput :: string

record watch = "watch_result session" +
  found :: bool
  matchedLine :: string

definition fresh_watch :: watch where
  "fresh_watch = session.extend fresh (watch.fields False [])"

definition stopwatch :: string where
  "stopwatch = [CHR 0xE2, CHR 0x8F, CHR 0xB1, CHR 0xEF, CHR 0xB8, CHR 0x8F]"

definition timeout_note :: string where
  "timeout_note = [nl, nl] @ stopwatch @ '' Timeout reached without finding pattern.''"

text \<open>The body of the loop over the lines of a stdout chunk.\<close>

definition watch_line :: "matcher \<Rightarrow> watch \<Rightarrow> string \<Rightarrow> watch" where
  "watch_line matcher s line =
     (let s = s\<lparr>output_buf := output_buf s @ line @ [nl]\<rparr>
      in if \<not> found s \<and> matcher line
         then kill (s\<lparr>found := True, matchedLine := line\<rparr>)
         else s)"

definition watchForPattern_event :: "matcher \<Rightarrow> event \<Rightarrow> watch \<Rightarrow> watch" where
  "watchForPattern_event matcher ev s =
     (case ev of
        Stdout data \<Rightarrow> foldl (watch_line matcher) s (split_nl data)
      | Stderr data \<Rightarrow> append_output data s
      | Close \<Rightarrow>
          resolve \<lparr>r_found = found s, r_matchedLine = matchedLine s, allOutput = output_buf s\<rparr> s
      | Error msg \<Rightarrow>
          resolve \<lparr>r_found = False, r_matchedLine = [], allOutput = ''Error: '' @ msg\<rparr> s
      | Timeout \<Rightarrow>
          (if \<not> found s then
             (let s' = kill s
              in resolve \<lparr>r_found = False, r_matchedLine = [],
                          allOutput = output_buf s' @ timeout_note\<rparr> s')
           else s))"

text \<open>
  The executor of \<open>watchForPattern\<close>, in the order of its statements: \<open>log stream\<close> is
  spawned first; then the matcher is built, and a pattern the engine rejects resolves the
  promise and returns, before any listener is attached or the timer armed.
\<close>

definition watchForPattern ::
  "regexp_engine \<Rightarrow> string \<Rightarrow> bool \<Rightarrow> string option \<Rightarrow> int \<Rightarrow> event list \<Rightarrow> watch" where
  "watchForPattern RegExp pattern useRegex process timeoutSeconds evs =
     (let s = spawn ''log''
                ([''stream'', ''--style'', ''compact''] @
                 (case process of None \<Rightarrow> [] | Some p \<Rightarrow>
                    if p = [] then []
                    else [''--predicate'', ''processImagePath CONTAINS '' @ [dq] @ p @ [dq]]))
                fresh_watch
      in case make_matcher RegExp pattern useRegex of
           Inl e \<Rightarrow>
             run (\<lambda>ev s. s) evs
               (resolve \<lparr>r_found = False, r_matchedLine = [], allOutput = ''Invalid regex: '' @ e\<rparr> s)
         | Inr matcher \<Rightarrow>
             run (watchForPattern_event matcher) evs (setTimeout (timeoutSeconds * 1000) (listen s)))"

section \<open>Tool handlers: defaults and clamps of the arguments\<close>

text \<open>
  The cases of the tool-call handler that lead to the functions above, with the optional
  numeric arguments as the handler reads them. A case that returns before calling its
  function gives \<open>Inl\<close> with the reply text; otherwise the definition gives the call made
  (\<open>Inr\<close> where the case has such a return), whose resolved value the handler then wraps
  into its reply. \<open>get_device_logs\<close> and \<open>get_simulator_logs\<close> start after their
  identifier has been looked up.
\<close>

definition get_logs ::
  "string option \<Rightarrow> string option \<Rightarrow> int option \<Rightarrow> int option \<Rightarrow> event list \<Rightarrow> string counted" where
  "get_logs process subsystem lastMinutes maxLines evs =
     getMacLogs subsystem process (num_or lastMinutes 5) (num_or maxLines 200) evs"

definition get_device_logs ::
  "bool \<Rightarrow> string \<Rightarrow> string option \<Rightarrow> int option \<Rightarrow> int option \<Rightarrow> event list \<Rightarrow> string counted" where
  "get_device_logs hasIdevicesyslog udid process lastMinutes maxLines evs =
     getDeviceLogs hasIdevicesyslog udid process (min (num_or lastMinutes 5) 10)
       (num_or maxLines 200) evs"

definition get_simulator_logs ::
  "(string \<Rightarrow> simulator option) \<Rightarrow> string \<Rightarrow> string option \<Rightarrow> int option \<Rightarrow> int option \<Rightarrow>
   event list \<Rightarrow> string counted" where
  "get_simulator_logs findSimulator udid process lastMinutes maxLines evs =
     getSimulatorLogs findSimulator udid process (num_or lastMinutes 5) (num_or maxLines 200) evs"

definition stream_logs :: "bool \<Rightarrow> string option \<Rightarrow> int option \<Rightarrow> event list \<Rightarrow> string session" where
  "stream_logs hasIdevicesyslog process durationSeconds evs =
     streamDeviceLogs hasIdevicesyslog [] process (min (num_or durationSeconds 10) 30) evs"

definition stream_simulator_logs ::
  "(string \<Rightarrow> simulator option) \<Rightarrow> string \<Rightarrow> string option \<Rightarrow> int option \<Rightarrow> event list \<Rightarrow>
   string + string session" where
  "stream_simulator_logs findSimulator simulatorId process durationSeconds evs =
     (if simulatorId = [] then Inl ''Error: simulator parameter is required.''
      else Inr (streamSimulatorLogs findSimulator simulatorId process
                  (min (num_or durationSeconds 10) 30) evs))"

definition search_logs ::
  "regexp_engine \<Rightarrow> string \<Rightarrow> bool \<Rightarrow> int option \<Rightarrow> int option \<Rightarrow> event list \<Rightarrow>
   string + string counted" where
  "search_logs RegExp query useRegex lastMinutes maxLines evs =
     (if query = [] then Inl ''Error: query is required''
      else Inr (searchLogs RegExp query (num_or lastMinutes 30) (num_or maxLines 100) useRegex evs))"

definition get_logs_by_level ::
  "string \<Rightarrow> string option \<Rightarrow> int option \<Rightarrow> int option \<Rightarrow> event list \<Rightarrow> string + string counted" where
  "get_logs_by_level level process lastMinutes maxLines evs =
     (if level = [] then Inl ''Error: level is required (fault, error, warning, info, debug)''
      else Inr (getLogsByLevel level process (num_or lastMinutes 5) (num_or maxLines 200) evs))"

definition watch_for_pattern ::
  "regexp_engine \<Rightarrow> string \<Rightarrow> bool \<Rightarrow> string option \<Rightarrow> int option \<Rightarrow> event list \<Rightarrow>
   string + watch" where
  "watch_for_pattern RegExp pattern useRegex process timeoutSeconds evs =
     (if pattern = [] then Inl ''Error: pattern is required''
      else Inr (watchForPattern RegExp pattern useRegex process
                  (min (num_or timeoutSeconds 30) 60) evs))"

definition get_vpn_logs :: "int option \<Rightarrow> int option \<Rightarrow> event list \<Rightarrow> string counted" where
  "get_vpn_logs lastMinutes maxLines evs =
     getMacLogs None (Some ''WorxVPN'') (num_or lastMinutes 5) (num_or maxLines 300) evs"

section \<open>Notions used to state the properties\<close>

text \<open>The number of lines held in an output buffer: each line is stored with a line feed
  after it.\<close>

definition buffered_lines :: "string \<Rightarrow> nat" where
  "buffered_lines buf = length (filter (\<lambda>c. c = nl) buf)"

text \<open>Joining the line sequences of two consecutive chunks at their boundary: the last
  piece of the earlier chunk and the first piece of the later chunk are one line.\<close>

fun glue :: "string list \<Rightarrow> string list \<Rightarrow> string list" where
  "glue [] ys = ys"
| "glue [x] [] = [x]"
| "glue [x] (y # ys) = (x @ y) # ys"
| "glue (x # x' # xs) ys = x # glue (x' # xs) ys"

definition rejoin :: "string list list \<Rightarrow> string list" where
  "rejoin pieces = foldr glue pieces [[]]"

text \<open>An event that only carries output of the child.\<close>

fun is_data :: "event \<Rightarrow> bool" where
  "is_data (Stdout d) = True"
| "is_data (Stderr d) = True"
| "is_data ev = False"

text \<open>The stdout chunks among the events, in order.\<close>

fun stdout_chunks :: "event list \<Rightarrow> string list" where
  "stdout_chunks [] = []"
| "stdout_chunks (Stdout d # evs) = d # stdout_chunks evs"
| "stdout_chunks (ev # evs) = stdout_chunks evs"

text \<open>The text an event adds to the output of a timed stream.\<close>

fun chunk_text :: "event \<Rightarrow> string" where
  "chunk_text (Stdout d) = d"
| "chunk_text (Stderr d) = d"
| "chunk_text ev = []"

text \<open>
  A call is settled by its timer within \<open>bound\<close> milliseconds: either no timer was armed
  and the call is resolved already, or the timer was armed with a delay of at most \<open>bound\<close>;
  and once the timer event is among the events delivered, the call is resolved.
\<close>

definition timer_within :: "int \<Rightarrow> ('r, 'z) session_scheme \<Rightarrow> bool" where
  "timer_within bound s =
     (case timer s of None \<Rightarrow> resolved s \<noteq> None | Some ms \<Rightarrow> ms \<le> bound)"

definition settled_by_timer :: "int \<Rightarrow> event list \<Rightarrow> ('r, 'z) session_scheme \<Rightarrow> bool" where
  "settled_by_timer bound evs s =
     (timer_within bound s \<and> (Timeout \<in> set evs \<longrightarrow> resolved s \<noteq> None))"

text \<open>A tool case either replies at once or makes a call with the property \<open>P\<close>.\<close>

definition reply_or_call :: "('s \<Rightarrow> bool) \<Rightarrow> string + 's \<Rightarrow> bool" where
  "reply_or_call P r = (case r of Inl text \<Rightarrow> True | Inr s \<Rightarrow> P s)"

text \<open>An event that resolves nothing in a timed stream: output of the child or its
  \<open>close\<close>.\<close>

fun is_output_or_close :: "event \<Rightarrow> bool" where
  "is_output_or_close (Error msg) = False"
| "is_output_or_close Timeout = False"
| "is_output_or_close ev = True"

section \<open>Basic facts\<close>

lemma fresh_counted_simps [simp]:
  "lineCount (fresh_counted :: 'r counted) = 0"
  "output_buf (fresh_counted :: 'r counted) = []"
  "resolved (fresh_counted :: 'r counted) = None"
  "listening (fresh_counted :: 'r counted) = False"
  "timer (fresh_counted :: 'r counted) = None"
  "kills (fresh_counted :: 'r counted) = 0"
  "spawned (fresh_counted :: 'r counted) = []"
  "unhandled (fresh_counted :: 'r counted) = False"
  by (simp_all add: fresh_counted_def fresh_def session.extend_def counted.fields_def)

lemma fresh_watch_simps [simp]:
  "found fresh_watch = False"
  "matchedLine fresh_watch = []"
  "output_buf fresh_watch = []"
  "resolved fresh_watch = None"
  "listening fresh_watch = False"
  "timer fresh_watch = None"
  "kills fresh_watch = 0"
  "spawned fresh_watch = []"
  "unhandled fresh_watch = False"
  by (simp_all add: fresh_watch_def fresh_def session.extend_def watch.fields_def)

lemma fresh_simps [simp]:
  "output_buf (fresh :: 'r session) = []"
  "resolved (fresh :: 'r session) = None"
  "listening (fresh :: 'r session) = False"
  "timer (fresh :: 'r session) = None"
  "kills (fresh :: 'r session) = 0"
  "spawned (fresh :: 'r session) = []"
  "unhandled (fresh :: 'r session) = False"
  by (simp_all add: fresh_def)

lemma split_nl_not_Nil [simp]: "split_nl s \<noteq> []"
  by (induction s) (auto split: list.splits)

lemma split_nl_no_nl: "l \<in> set (split_nl s) \<Longrightarrow> nl \<notin> set l"
  by (induction s arbitrary: l) (auto split: list.splits if_splits)

lemma split_nl_append_snoc:
  "split_nl a = xs @ [x] \<Longrightarrow> split_nl b = y # ys \<Longrightarrow> split_nl (a @ b) = xs @ (x @ y) # ys"
proof (induction a arbitrary: xs x)
  case Nil
  then show ?case by simp
next
  case (Cons c a)
  obtain xs' x' where a: "split_nl a = xs' @ [x']"
    by (metis append_butlast_last_id split_nl_not_Nil)
  have IH: "split_nl (a @ b) = xs' @ (x' @ y) # ys"
    by (rule Cons.IH [OF a Cons.prems(2)])
  show ?case
  proof (cases "c = nl")
    case True
    with Cons.prems(1) a have "xs = [] # xs'" "x = x'"
      by auto
    with True IH show ?thesis by simp
  next
    case False
    show ?thesis
    proof (cases xs')
      case Nil
      with Cons.prems(1) a False have "xs = []" "x = c # x'"
        by auto
      with False IH Nil show ?thesis by simp
    next
      case (Cons z zs)
      with Cons.prems(1) a False have "xs = (c # z) # zs" "x = x'"
        by auto
      with False IH Cons show ?thesis by simp
    qed
  qed
qed

lemma split_nl_append:
  "split_nl (a @ b) = butlast (split_nl a) @ [last (split_nl a) @ hd (split_nl b)] @ tl (split_nl b)"
proof -
  have "split_nl a = butlast (split_nl a) @ [last (split_nl a)]"
    by simp
  moreover have "split_nl b = hd (split_nl b) # tl (split_nl b)"
    by simp
  ultimately show ?thesis
    using split_nl_append_snoc by fastforce
qed

lemma length_split_nl: "length (split_nl s) = Suc (length (filter (\<lambda>c. c = nl) s))"
  by (induction s) (auto split: list.splits)

lemma concat_split_nl: "concat (split_nl s) = filter (\<lambda>c. c \<noteq> nl) s"
  by (induction s) (auto split: list.splits)


lemma glue_snoc: "glue (xs @ [x]) (y # ys) = xs @ (x @ y) # ys"
proof (induction xs)
  case Nil
  show ?case by simp
next
  case (Cons z zs)
  then show ?case by (cases zs) auto
qed

lemma split_nl_glue: "split_nl (a @ b) = glue (split_nl a) (split_nl b)"
proof -
  obtain xs x where a: "split_nl a = xs @ [x]"
    by (metis append_butlast_last_id split_nl_not_Nil)
  obtain y ys where b: "split_nl b = y # ys"
    by (cases "split_nl b") auto
  show ?thesis
    by (simp add: split_nl_append_snoc [OF a b] a b glue_snoc)
qed

lemma split_nl_concat: "split_nl (concat chunks) = rejoin (map split_nl chunks)"
  by (induction chunks) (simp_all add: rejoin_def split_nl_glue)

lemma length_stream_lines:
  "length (stream_lines chunks) = length chunks + length (filter (\<lambda>c. c = nl) (concat chunks))"
  by (induction chunks) (simp_all add: stream_lines_def length_split_nl)

lemma concat_stream_lines: "concat (stream_lines chunks) = filter (\<lambda>c. c \<noteq> nl) (concat chunks)"
  by (induction chunks) (simp_all add: stream_lines_def concat_split_nl)

subsection \<open>Lines across chunk boundaries\<close>

text \<open>
  Claim C3, as amended. Each chunk is split at its line feeds on its own and nothing is
  carried from one chunk to the next: the lines a handler goes through are
  \<^term>\<open>stream_lines chunks\<close>, the splits of the chunks one after the other. The lines of
  the whole text are recovered from them by joining, at every chunk boundary, the last
  piece of the earlier chunk with the first piece of the later one (\<^const>\<open>rejoin\<close>); so
  the handler sees one line more per chunk boundary than the whole text has, and the same
  characters.
\<close>

theorem chunked_lines_rejoin:
  "split_nl (concat chunks) = rejoin (map split_nl chunks) \<and>
   length (stream_lines chunks) + 1 = length (split_nl (concat chunks)) + length chunks \<and>
   concat (stream_lines chunks) = concat (split_nl (concat chunks))"
proof (intro conjI)
  show "split_nl (concat chunks) = rejoin (map split_nl chunks)"
    by (rule split_nl_concat)
  show "length (stream_lines chunks) + 1 = length (split_nl (concat chunks)) + length chunks"
    by (simp add: length_stream_lines length_split_nl)
  show "concat (stream_lines chunks) = concat (split_nl (concat chunks))"
    by (simp add: concat_stream_lines concat_split_nl)
qed

text \<open>
  Claim C3 as stated fails: the text \<open>ab\ncd\<close> arriving as the chunks \<open>ab\nc\<close> and \<open>d\<close>
  gives the lines \<open>ab\<close>, \<open>c\<close>, \<open>d\<close>, and in one chunk the lines \<open>ab\<close>, \<open>cd\<close>.
\<close>

theorem chunk_boundary_counterexample:
  "stream_lines [''ab'' @ [nl] @ ''c'', ''d''] \<noteq> stream_lines [''ab'' @ [nl] @ ''cd'']"
  by (simp add: stream_lines_def nl_def)

section \<open>Runs of events and the collecting loops\<close>

lemma run_Nil [simp]: "run on_event [] s = s"
  by (simp add: run_def)

lemma run_Cons [simp]: "run on_event (ev # evs) s = run on_event evs (deliver on_event ev s)"
  by (simp add: run_def)

lemma run_append: "run on_event (xs @ ys) s = run on_event ys (run on_event xs s)"
  by (simp add: run_def)

lemma run_invariant:
  assumes "P s" and "\<And>ev s. P s \<Longrightarrow> P (deliver on_event ev s)"
  shows "P (run on_event evs s)"
  using assms by (induction evs arbitrary: s) auto

lemma foldl_invariant:
  assumes "P s" and "\<And>s l. P s \<Longrightarrow> P (step s l)"
  shows "P (foldl step s ls)"
  using assms by (induction ls arbitrary: s) auto

lemma run_Stdout_lines:
  assumes on: "\<And>d s. on_event (Stdout d) s = foldl step s (split_nl d)"
    and keep: "\<And>s l. listening (step s l) = listening s"
    and s: "listening s"
  shows "run on_event (map Stdout chunks) s = foldl step s (stream_lines chunks)"
  using s
proof (induction chunks arbitrary: s)
  case Nil
  show ?case by (simp add: stream_lines_def)
next
  case (Cons d chunks)
  have "listening (foldl step s (split_nl d))"
    by (rule foldl_invariant [where P = listening]) (simp_all add: Cons.prems keep)
  then have "run on_event (map Stdout chunks) (foldl step s (split_nl d)) =
        foldl step (foldl step s (split_nl d)) (stream_lines chunks)"
    by (rule Cons.IH)
  then show ?case
    using Cons.prems by (simp add: deliver_def on stream_lines_def)
qed

lemma collect_line_is_search: "collect_line N = search_line (\<lambda>l. True) N"
  by (simp add: collect_line_def search_line_def fun_eq_iff)

lemma search_line_filter:
  "foldl (search_line m N) s ls =
     s\<lparr>output_buf := output_buf s @ concat (map (\<lambda>l. l @ [nl]) (take (nat (N - int (lineCount s))) (filter m ls))),
       lineCount := lineCount s + min (nat (N - int (lineCount s))) (length (filter m ls))\<rparr>"
proof (induction ls arbitrary: s)
  case Nil
  then show ?case by simp
next
  case (Cons l ls)
  have step: "foldl (search_line m N) s (l # ls) = foldl (search_line m N) (search_line m N s l) ls"
    by simp
  show ?case
  proof (cases "m l \<and> int (lineCount s) < N")
    case True
    then obtain k where k: "nat (N - int (lineCount s)) = Suc k" 
      by (metis Suc_pred' zero_less_nat_eq diff_gt_0_iff_gt)
    with True have k': "nat (N - (1 + int (lineCount s))) = k" by simp
    from True have sl: "search_line m N s l = s\<lparr>output_buf := output_buf s @ l @ [nl], lineCount := lineCount s + 1\<rparr>"
      by (simp add: search_line_def)
    show ?thesis unfolding step Cons.IH sl using True k k' by simp
  next
    case False
    then have sl: "search_line m N s l = s" by (auto simp: search_line_def)
    from False show ?thesis unfolding step Cons.IH sl 
      by (cases "m l") auto
  qed
qed

lemma buffered_lines_append [simp]: "buffered_lines (a @ b) = buffered_lines a + buffered_lines b"
  by (simp add: buffered_lines_def)

lemma buffered_lines_Nil [simp]: "buffered_lines [] = 0"
  by (simp add: buffered_lines_def)

lemma buffered_lines_stored:
  "\<forall>l \<in> set ls. nl \<notin> set l \<Longrightarrow> buffered_lines (concat (map (\<lambda>l. l @ [nl]) ls)) = length ls"
proof (induction ls)
  case Nil
  show ?case by simp
next
  case (Cons l ls)
  have "filter (\<lambda>c. c = nl) l = []"
    using Cons.prems by (auto simp: filter_empty_conv)
  with Cons show ?case by (simp add: buffered_lines_def)
qed

lemma stream_lines_no_nl: "l \<in> set (stream_lines chunks) \<Longrightarrow> nl \<notin> set l"
  by (auto simp: stream_lines_def dest: split_nl_no_nl)

lemma session_ops_simps [simp]:
  "lineCount (resolve r s) = lineCount s"
  "lineCount (kill s) = lineCount s"
  "lineCount (append_output t s) = lineCount s"
  "lineCount (listen s) = lineCount s"
  "lineCount (setTimeout ms s) = lineCount s"
  "lineCount (spawn cmd args s) = lineCount s"
  by (simp_all add: resolve_def kill_def append_output_def listen_def setTimeout_def spawn_def)

lemmas session_ops = resolve_def kill_def append_output_def listen_def setTimeout_def spawn_def

lemma deliver_cases:
  assumes "P s" and "\<And>ev. P (on_event ev s)" and "P (s\<lparr>unhandled := True\<rparr>)"
  shows "P (deliver on_event ev s)"
  using assms by (cases ev) (simp_all add: deliver_def)

lemma collect_line_cap:
  "int (lineCount s) \<le> max 0 N \<Longrightarrow> int (lineCount (collect_line N s l)) \<le> max 0 N"
  by (simp add: collect_line_def)

lemma search_line_cap:
  "int (lineCount s) \<le> max 0 N \<Longrightarrow> int (lineCount (search_line m N s l)) \<le> max 0 N"
  by (simp add: search_line_def)

lemma getMacLogs_event_cap:
  assumes "int (lineCount s) \<le> max 0 N"
  shows "int (lineCount (getMacLogs_event N ev s)) \<le> max 0 N"
proof (cases ev)
  case (Stdout d)
  have "int (lineCount (foldl (collect_line N) s (split_nl d))) \<le> max 0 N"
    by (rule foldl_invariant [where P = "\<lambda>s. int (lineCount s) \<le> max 0 N"])
       (simp_all add: assms collect_line_cap)
  with Stdout show ?thesis by (simp add: getMacLogs_event_def)
qed (use assms in \<open>simp_all add: getMacLogs_event_def Let_def\<close>)

lemma searchLogs_event_cap:
  assumes "int (lineCount s) \<le> max 0 N"
  shows "int (lineCount (searchLogs_event q m N ev s)) \<le> max 0 N"
proof (cases ev)
  case (Stdout d)
  have "int (lineCount (foldl (search_line m N) s (split_nl d))) \<le> max 0 N"
    by (rule foldl_invariant [where P = "\<lambda>s. int (lineCount s) \<le> max 0 N"])
       (simp_all add: assms search_line_cap)
  with Stdout show ?thesis by (simp add: searchLogs_event_def)
qed (use assms in \<open>simp_all add: searchLogs_event_def Let_def\<close>)

lemma run_cap:
  fixes s :: "('r, 'z) counted_scheme"
  assumes "\<And>ev s. int (lineCount s) \<le> max 0 N \<Longrightarrow> int (lineCount (on_event ev s)) \<le> max 0 N"
    and "int (lineCount s) \<le> max 0 N"
  shows "int (lineCount (run on_event evs s)) \<le> max 0 N"
proof (rule run_invariant [where P = "\<lambda>s. int (lineCount s) \<le> max 0 N"])
  show "int (lineCount s) \<le> max 0 N" by fact
next
  fix ev and t :: "('r, 'z) counted_scheme"
  assume t: "int (lineCount t) \<le> max 0 N"
  show "int (lineCount (deliver on_event ev t)) \<le> max 0 N"
    by (rule deliver_cases) (simp_all add: assms(1) t)
qed

lemma getMacLogs_cap: "int (lineCount (getMacLogs subsystem process lastMinutes N evs)) \<le> max 0 N"
  unfolding getMacLogs_def by (rule run_cap) (simp_all add: getMacLogs_event_cap)

lemma searchLogs_cap: "int (lineCount (searchLogs RegExp query lastMinutes N useRegex evs)) \<le> max 0 N"
proof (cases "make_matcher RegExp query useRegex")
  case (Inl e)
  show ?thesis
    unfolding searchLogs_def Let_def Inl sum.case
    by (rule run_cap) (simp_all add: session_ops)
next
  case (Inr m)
  show ?thesis
    unfolding searchLogs_def Let_def Inr sum.case
    by (rule run_cap) (simp_all add: searchLogs_event_cap session_ops)
qed

lemma step_listening [simp]:
  "listening (collect_line N s l) = listening s"
  "listening (search_line m N s l) = listening s"
  "listening (device_line N s l) = listening s"
  by (simp_all add: collect_line_def search_line_def device_line_def)

lemma getMacLogs_stdout:
  "getMacLogs subsystem process lastMinutes N (map Stdout chunks) =
     foldl (collect_line N)
       (setTimeout 15000 (listen (spawn ''log'' (getMacLogs_args subsystem process lastMinutes) fresh_counted)))
       (stream_lines chunks)"
  unfolding getMacLogs_def
  by (rule run_Stdout_lines) (simp_all add: getMacLogs_event_def listen_def setTimeout_def)

lemma searchLogs_stdout:
  assumes "make_matcher RegExp query useRegex = Inr m"
  shows "searchLogs RegExp query lastMinutes N useRegex (map Stdout chunks) =
     foldl (search_line m N)
       (setTimeout 30000 (listen (spawn ''log''
          [''show'', ''--last'', show_int lastMinutes @ ''m'', ''--style'', ''compact''] fresh_counted)))
       (stream_lines chunks)"
  unfolding searchLogs_def Let_def assms sum.case
  by (rule run_Stdout_lines) (simp_all add: searchLogs_event_def listen_def setTimeout_def)

lemma run_ignore: "\<not> listening s \<Longrightarrow> run on_event (map Stdout chunks) s = s"
  by (induction chunks) (simp_all add: deliver_def)

lemma searchLogs_stdout_invalid:
  assumes "make_matcher RegExp query useRegex = Inl e"
  shows "searchLogs RegExp query lastMinutes N useRegex (map Stdout chunks) =
     resolve (''Invalid regex pattern: '' @ query @ [nl] @ ''Error: '' @ e)
       (spawn ''log'' [''show'', ''--last'', show_int lastMinutes @ ''m'', ''--style'', ''compact'']
          fresh_counted)"
  unfolding searchLogs_def Let_def assms sum.case
  by (rule run_ignore) (simp add: session_ops)

lemma foldl_search_line_buffered:
  assumes "\<forall>l \<in> set ls. nl \<notin> set l"
  shows "buffered_lines (output_buf (foldl (search_line m N) s ls)) + lineCount s =
         lineCount (foldl (search_line m N) s ls) + buffered_lines (output_buf s)"
proof -
  have "\<forall>l \<in> set (take (nat (N - int (lineCount s))) (filter m ls)). nl \<notin> set l"
    using assms by (auto dest: in_set_takeD)
  then show ?thesis
    by (simp add: search_line_filter buffered_lines_stored)
qed

subsection \<open>The line cap of the collecting loops\<close>

text \<open>
  Claim C1. For every \<open>maxLines = N\<close> and every sequence of arriving output, the collecting
  loops of \<open>getMacLogs\<close> and \<open>searchLogs\<close> keep at most \<open>N\<close> lines (none when \<open>N\<close> is
  negative): whatever events arrive, \<open>lineCount\<close> never exceeds \<open>N\<close>; over any sequence of
  stdout chunks the output buffer holds exactly \<open>lineCount\<close> lines; and once the count has
  reached \<open>N\<close>, a further line leaves the whole state, buffer and count included, as it
  was.
\<close>

theorem collector_never_exceeds_cap:
  "int (lineCount (getMacLogs subsystem process lastMinutes N evs)) \<le> max 0 N \<and>
   int (lineCount (searchLogs RegExp query lastMinutes N useRegex evs)) \<le> max 0 N \<and>
   buffered_lines (output_buf (getMacLogs subsystem process lastMinutes N (map Stdout chunks))) =
     lineCount (getMacLogs subsystem process lastMinutes N (map Stdout chunks)) \<and>
   buffered_lines (output_buf (searchLogs RegExp query lastMinutes N useRegex (map Stdout chunks))) =
     lineCount (searchLogs RegExp query lastMinutes N useRegex (map Stdout chunks)) \<and>
   (N \<le> int (lineCount s) \<longrightarrow> collect_line N s line = s \<and> search_line matcher N s line = s)"
proof (intro conjI impI)
  show "int (lineCount (getMacLogs subsystem process lastMinutes N evs)) \<le> max 0 N"
    by (rule getMacLogs_cap)
  show "int (lineCount (searchLogs RegExp query lastMinutes N useRegex evs)) \<le> max 0 N"
    by (rule searchLogs_cap)
  have no_nl: "\<forall>l \<in> set (stream_lines chunks). nl \<notin> set l"
    by (simp add: stream_lines_no_nl)
  show "buffered_lines (output_buf (getMacLogs subsystem process lastMinutes N (map Stdout chunks))) =
     lineCount (getMacLogs subsystem process lastMinutes N (map Stdout chunks))"
    using foldl_search_line_buffered [OF no_nl, of "\<lambda>l. True" N
        "setTimeout 15000 (listen (spawn ''log'' (getMacLogs_args subsystem process lastMinutes) fresh_counted))"]
    by (simp add: getMacLogs_stdout collect_line_is_search session_ops)
  show "buffered_lines (output_buf (searchLogs RegExp query lastMinutes N useRegex (map Stdout chunks))) =
     lineCount (searchLogs RegExp query lastMinutes N useRegex (map Stdout chunks))"
  proof (cases "make_matcher RegExp query useRegex")
    case (Inl e)
    show ?thesis
      by (simp add: searchLogs_stdout_invalid [OF Inl] session_ops)
  next
    case (Inr m)
    show ?thesis
      using foldl_search_line_buffered [OF no_nl, of m N
        "setTimeout 30000 (listen (spawn ''log''
          [''show'', ''--last'', show_int lastMinutes @ ''m'', ''--style'', ''compact''] fresh_counted))"]
      by (simp add: searchLogs_stdout [OF Inr] session_ops)
  qed
next
  assume "N \<le> int (lineCount s)"
  then show "collect_line N s line = s" "search_line matcher N s line = s"
    by (simp_all add: collect_line_def search_line_def)
qed

text \<open>With \<open>maxLines = 1\<close> and the line \<open>a\<close> collected, the line \<open>b\<close> changes nothing.\<close>

theorem collector_never_exceeds_cap_witness:
  "(1::int) \<le> int (lineCount (getMacLogs None None 5 1 [Stdout ''a''])) \<and>
   collect_line 1 (getMacLogs None None 5 1 [Stdout ''a'']) ''b'' =
     getMacLogs None None 5 1 [Stdout ''a''] \<and>
   search_line (plain_matcher ''b'') 1 (getMacLogs None None 5 1 [Stdout ''a'']) ''b'' =
     getMacLogs None None 5 1 [Stdout ''a'']"
proof -
  have h: "(1::int) \<le> int (lineCount (getMacLogs None None 5 1 [Stdout ''a'']))"
    by code_simp
  from collector_never_exceeds_cap
         [where N = 1 and s = "getMacLogs None None 5 1 [Stdout ''a'']" and line = "''b''"
            and matcher = "plain_matcher ''b''"] h
  show ?thesis by blast
qed

section \<open>What the line steps preserve\<close>

lemma foldl_frame:
  assumes "\<And>s l. f (step s l) = f s"
  shows "f (foldl step s ls) = f s"
  by (induction ls arbitrary: s) (simp_all add: assms)

lemma run_frame:
  assumes "\<And>ev s. f (on_event ev s) = f s" and "\<And>s. f (s\<lparr>unhandled := True\<rparr>) = f s"
  shows "f (run on_event evs s) = f s"
proof (induction evs arbitrary: s)
  case Nil
  show ?case by simp
next
  case (Cons ev evs)
  have "f (deliver on_event ev s) = f s"
    by (cases ev) (simp_all add: deliver_def assms)
  with Cons show ?case by simp
qed

lemma step_frame [simp]:
  "timer (collect_line N s l) = timer s"
  "resolved (collect_line N s l) = resolved s"
  "kills (collect_line N s l) = kills s"
  "timer (search_line m N s l) = timer s"
  "resolved (search_line m N s l) = resolved s"
  "kills (search_line m N s l) = kills s"
  "timer (device_line N s l) = timer s"
  "resolved (device_line N s l) = resolved s"
  "kills (device_line N s l) = kills s"
  by (simp_all add: collect_line_def search_line_def device_line_def)

lemma watch_line_frame [simp]:
  "timer (watch_line m s l) = timer s"
  "resolved (watch_line m s l) = resolved s"
  "listening (watch_line m s l) = listening s"
  by (simp_all add: watch_line_def Let_def kill_def)

lemma getDeviceLogs_event_timer [simp]: "timer (getDeviceLogs_event udid N ev s) = timer s"
  by (cases ev) (simp_all add: getDeviceLogs_event_def session_ops Let_def foldl_frame)

lemma getDeviceLogs_timeout:
  "deliver (getDeviceLogs_event udid N) Timeout s =
     (if timer s = None then s
      else resolve (or_else (output_buf s) (''No logs captured from device '' @ udid)) (kill s))"
  by (simp add: deliver_def getDeviceLogs_event_def Let_def kill_def)

lemma resolve_resolved: "resolved (resolve r s) \<noteq> None"
  by (simp add: resolve_def)

lemma collectDuration_clamped: "collectDuration (min m 10) = min m 10 * 1000"
  by (simp add: collectDuration_def)

subsection \<open>The collection window of the device fetch\<close>

text \<open>
  Claim C10. In \<open>get_device_logs\<close> through \<open>idevicesyslog\<close> the timer is armed with
  \<open>collectDuration\<close> of \<open>lastMinutes\<close> clamped to at most 10, that is
  \<open>min (lastMinutes * 1000) 10000\<close> milliseconds; after the clamp this is \<open>lastMinutes\<close>
  times 1000, so the minutes count as seconds: for a requested \<open>m\<close> (other than 0, which
  like a missing argument stands for 5) the window is \<open>min m 10\<close> seconds and never more
  than 10 seconds. When the timer fires the child is killed and the call is resolved.
\<close>

theorem device_window_is_seconds:
  "timer (get_device_logs True udid process lastMinutes maxLines evs) =
     Some (collectDuration (min (num_or lastMinutes 5) 10)) \<and>
   collectDuration (min (num_or lastMinutes 5) 10) = min (num_or lastMinutes 5) 10 * 1000 \<and>
   collectDuration (min (num_or lastMinutes 5) 10) \<le> 10000 \<and>
   (lastMinutes = Some m \<and> m \<noteq> 0 \<longrightarrow>
      collectDuration (min (num_or lastMinutes 5) 10) = min m 10 * 1000) \<and>
   kills (get_device_logs True udid process lastMinutes maxLines (evs @ [Timeout])) =
     kills (get_device_logs True udid process lastMinutes maxLines evs) + 1 \<and>
   resolved (get_device_logs True udid process lastMinutes maxLines (evs @ [Timeout])) \<noteq> None"
proof (intro conjI impI)
  let ?s0 = "setTimeout (collectDuration (min (num_or lastMinutes 5) 10))
               (listen (spawn ''idevicesyslog''
                  ([''-u'', udid] @
                   (case process of None \<Rightarrow> [] | Some p \<Rightarrow> if p = [] then [] else [''-m'', p]))
                  (fresh_counted :: string counted)))"
  let ?on = "getDeviceLogs_event udid (num_or maxLines 200)"
  have call: "get_device_logs True udid process lastMinutes maxLines es = run ?on es ?s0" for es
    by (simp add: get_device_logs_def getDeviceLogs_def)
  have "timer (run ?on evs ?s0) = timer ?s0"
    by (rule run_frame) simp_all
  then show tm: "timer (get_device_logs True udid process lastMinutes maxLines evs) =
     Some (collectDuration (min (num_or lastMinutes 5) 10))"
    by (simp add: call setTimeout_def)
  show "collectDuration (min (num_or lastMinutes 5) 10) = min (num_or lastMinutes 5) 10 * 1000"
    by (rule collectDuration_clamped)
  show "collectDuration (min (num_or lastMinutes 5) 10) \<le> 10000"
    by (simp add: collectDuration_def)
  from tm show "kills (get_device_logs True udid process lastMinutes maxLines (evs @ [Timeout])) =
     kills (get_device_logs True udid process lastMinutes maxLines evs) + 1"
    by (simp add: call run_append getDeviceLogs_timeout resolve_def kill_def)
  from tm show "resolved (get_device_logs True udid process lastMinutes maxLines (evs @ [Timeout])) \<noteq> None"
    by (simp add: call run_append getDeviceLogs_timeout resolve_resolved)
next
  assume "lastMinutes = Some m \<and> m \<noteq> 0"
  then show "collectDuration (min (num_or lastMinutes 5) 10) = min m 10 * 1000"
    by (simp add: collectDuration_def num_or_def)
qed

text \<open>A request for 3 minutes collects for 3000 milliseconds.\<close>

theorem device_window_is_seconds_witness:
  "Some (3::int) = Some 3 \<and> (3::int) \<noteq> 0 \<and> collectDuration (min (num_or (Some 3) 5) 10) = 3000"
proof -
  have h: "Some (3::int) = Some 3 \<and> (3::int) \<noteq> 0"
    by simp
  from device_window_is_seconds [where lastMinutes = "Some 3" and m = 3 and udid = "''u''"
      and process = None and maxLines = None and evs = "[]"] h
  have "collectDuration (min (num_or (Some 3) 5) 10) = min 3 10 * 1000"
    by blast
  then show ?thesis by simp
qed

subsection \<open>Only matching lines are collected\<close>



section \<open>The loop of the watch\<close>

lemma run_resolved_keep:
  assumes keep: "\<And>ev s. resolved s = Some r \<Longrightarrow> resolved (on_event ev s) = Some r"
    and s: "resolved s = Some r"
  shows "resolved (run on_event evs s) = Some r"
  using s
proof (induction evs arbitrary: s)
  case Nil
  then show ?case by simp
next
  case (Cons ev evs)
  have "resolved (deliver on_event ev s) = Some r"
    by (rule deliver_cases) (simp_all add: Cons.prems keep)
  then show ?case by (simp add: Cons.IH)
qed

lemma find_append:
  "find P (xs @ ys) = (case find P xs of None \<Rightarrow> find P ys | Some x \<Rightarrow> Some x)"
  by (induction xs) simp_all

lemma find_None_iff_set: "(find P xs = None) = (\<forall>x \<in> set xs. \<not> P x)"
  by (induction xs) simp_all

lemma stream_lines_Cons: "stream_lines (d # chunks) = split_nl d @ stream_lines chunks"
  by (simp add: stream_lines_def)

lemma stream_lines_Nil [simp]: "stream_lines [] = []"
  by (simp add: stream_lines_def)

text \<open>The loop of the watch over a list of lines.\<close>

lemma watch_lines:
  "foldl (watch_line m) s ls =
     s\<lparr>output_buf := output_buf s @ concat (map (\<lambda>l. l @ [nl]) ls),
       kills := (if \<not> found s \<and> find m ls \<noteq> None then kills s + 1 else kills s),
       found := (found s \<or> find m ls \<noteq> None),
       matchedLine := (if found s then matchedLine s
                       else case find m ls of None \<Rightarrow> matchedLine s | Some l \<Rightarrow> l)\<rparr>"
proof (induction ls arbitrary: s)
  case Nil
  show ?case by simp
next
  case (Cons l ls)
  have step: "foldl (watch_line m) s (l # ls) = foldl (watch_line m) (watch_line m s l) ls"
    by simp
  show ?case
    unfolding step Cons.IH
    by (auto simp: watch_line_def Let_def kill_def split: option.splits)
qed

lemma watch_event_frame [simp]:
  "timer (watchForPattern_event m ev s) = timer s"
  "listening (watchForPattern_event m ev s) = listening s"
  by (cases ev; simp add: watchForPattern_event_def session_ops Let_def foldl_frame)+

lemma watch_event_keep:
  "resolved s = Some r \<Longrightarrow> resolved (watchForPattern_event m ev s) = Some r"
  by (cases ev) (simp_all add: watchForPattern_event_def session_ops Let_def foldl_frame)

lemma watch_run_data:
  assumes "\<forall>ev \<in> set evs. is_data ev" and "listening s"
  shows "found (run (watchForPattern_event m) evs s) =
           (found s \<or> find m (stream_lines (stdout_chunks evs)) \<noteq> None) \<and>
         matchedLine (run (watchForPattern_event m) evs s) =
           (if found s then matchedLine s
            else case find m (stream_lines (stdout_chunks evs)) of
                   None \<Rightarrow> matchedLine s | Some l \<Rightarrow> l) \<and>
         kills (run (watchForPattern_event m) evs s) =
           (if \<not> found s \<and> find m (stream_lines (stdout_chunks evs)) \<noteq> None
            then kills s + 1 else kills s) \<and>
         resolved (run (watchForPattern_event m) evs s) = resolved s"
  using assms
proof (induction evs arbitrary: s)
  case Nil
  show ?case by simp
next
  case (Cons ev evs)
  let ?t = "deliver (watchForPattern_event m) ev s"
  have t: "?t = watchForPattern_event m ev s"
    using Cons.prems by (cases ev) (simp_all add: deliver_def)
  have lt: "listening ?t"
    using Cons.prems by (simp add: t)
  have IH: "found (run (watchForPattern_event m) evs ?t) =
           (found ?t \<or> find m (stream_lines (stdout_chunks evs)) \<noteq> None) \<and>
         matchedLine (run (watchForPattern_event m) evs ?t) =
           (if found ?t then matchedLine ?t
            else case find m (stream_lines (stdout_chunks evs)) of
                   None \<Rightarrow> matchedLine ?t | Some l \<Rightarrow> l) \<and>
         kills (run (watchForPattern_event m) evs ?t) =
           (if \<not> found ?t \<and> find m (stream_lines (stdout_chunks evs)) \<noteq> None
            then kills ?t + 1 else kills ?t) \<and>
         resolved (run (watchForPattern_event m) evs ?t) = resolved ?t"
    using Cons.prems lt by (intro Cons.IH) simp_all
  note ih = IH [THEN conjunct1] IH [THEN conjunct2, THEN conjunct1]
    IH [THEN conjunct2, THEN conjunct2, THEN conjunct1]
    IH [THEN conjunct2, THEN conjunct2, THEN conjunct2]
  show ?case
  proof (cases ev)
    case (Stdout d)
    have td: "?t = foldl (watch_line m) s (split_nl d)"
      using t by (simp add: Stdout watchForPattern_event_def)
    show ?thesis
      unfolding run_Cons ih unfolding td watch_lines
      by (simp add: Stdout stream_lines_Cons find_append split: option.splits)
  next
    case (Stderr d)
    have td: "?t = append_output d s"
      using t by (simp add: Stderr watchForPattern_event_def)
    show ?thesis
      unfolding run_Cons ih unfolding td
      by (simp add: Stderr append_output_def split: option.splits)
  qed (use Cons.prems in simp_all)
qed

lemma watchForPattern_valid:
  assumes "make_matcher RegExp pattern useRegex = Inr m"
  shows "watchForPattern RegExp pattern useRegex process timeoutSeconds evs =
     run (watchForPattern_event m) evs
       (setTimeout (timeoutSeconds * 1000) (listen
          (spawn ''log''
             ([''stream'', ''--style'', ''compact''] @
              (case process of None \<Rightarrow> [] | Some p \<Rightarrow>
                 if p = [] then []
                 else [''--predicate'', ''processImagePath CONTAINS '' @ [dq] @ p @ [dq]]))
             fresh_watch)))"
  by (simp add: watchForPattern_def assms)

lemma watch_start [simp]:
  "listening (setTimeout ms (listen (spawn cmd args fresh_watch)))"
  "timer (setTimeout ms (listen (spawn cmd args fresh_watch))) = Some ms"
  "\<not> found (setTimeout ms (listen (spawn cmd args fresh_watch)))"
  "kills (setTimeout ms (listen (spawn cmd args fresh_watch))) = 0"
  "resolved (setTimeout ms (listen (spawn cmd args fresh_watch))) = None"
  "output_buf (setTimeout ms (listen (spawn cmd args fresh_watch))) = []"
  by (simp_all add: session_ops)

lemma watch_run_frame [simp]:
  "listening (run (watchForPattern_event m) evs s) = listening s"
  "timer (run (watchForPattern_event m) evs s) = timer s"
  by (rule run_frame; simp)+

lemma find_takeWhile_not: "find P (takeWhile (\<lambda>x. \<not> P x) xs) = None"
  by (induction xs) simp_all

lemma find_Some_holds: "find P xs = Some x \<Longrightarrow> P x"
  by (induction xs) (auto split: if_splits)

subsection \<open>The first match\<close>

text \<open>
  Claim C4, as amended. Let the child deliver output only (stdout and stderr chunks in any
  order, with no timer, \<open>error\<close> or \<open>close\<close> before), and let \<open>line\<close> be the first of the
  stdout lines, taken chunk by chunk in processing order, that the matcher accepts. Then
  termination is requested exactly once, at that line: no \<open>kill\<close> has been sent after the
  lines before it, and one has been sent once the loop body has run on it. The call is
  not resolved by the match itself; the \<open>close\<close> of the child resolves \<open>watchForPattern\<close>
  with \<open>found = true\<close>, \<open>matchedLine = line\<close> and the output so far.
\<close>

theorem watch_returns_first_match:
  assumes m: "make_matcher RegExp pattern useRegex = Inr matcher"
    and data: "list_all is_data evs"
    and first: "find matcher (stream_lines (stdout_chunks evs)) = Some line"
  shows "resolved (watchForPattern RegExp pattern useRegex process timeoutSeconds (evs @ [Close])) =
           Some \<lparr>r_found = True, r_matchedLine = line,
                 allOutput = output_buf
                   (watchForPattern RegExp pattern useRegex process timeoutSeconds evs)\<rparr> \<and>
         resolved (watchForPattern RegExp pattern useRegex process timeoutSeconds evs) = None \<and>
         kills (watchForPattern RegExp pattern useRegex process timeoutSeconds evs) = 1 \<and>
         kills (foldl (watch_line matcher)
                  (watchForPattern RegExp pattern useRegex process timeoutSeconds [])
                  (takeWhile (\<lambda>l. \<not> matcher l) (stream_lines (stdout_chunks evs)))) = 0 \<and>
         kills (watch_line matcher
                  (foldl (watch_line matcher)
                     (watchForPattern RegExp pattern useRegex process timeoutSeconds [])
                     (takeWhile (\<lambda>l. \<not> matcher l) (stream_lines (stdout_chunks evs))))
                  line) = 1"
proof -
  let ?s0 = "setTimeout (timeoutSeconds * 1000) (listen
          (spawn ''log''
             ([''stream'', ''--style'', ''compact''] @
              (case process of None \<Rightarrow> [] | Some p \<Rightarrow>
                 if p = [] then []
                 else [''--predicate'', ''processImagePath CONTAINS '' @ [dq] @ p @ [dq]]))
             fresh_watch))"
  let ?on = "watchForPattern_event matcher"
  note W = watchForPattern_valid [OF m]
  have s0: "listening ?s0" by simp
  from data have data': "\<forall>ev \<in> set evs. is_data ev"
    by (simp add: list_all_iff)
  note after = watch_run_data [OF data' s0, of matcher]
  have fnd: "found (run ?on evs ?s0)" and ml: "matchedLine (run ?on evs ?s0) = line"
    and k: "kills (run ?on evs ?s0) = 1" and r: "resolved (run ?on evs ?s0) = None"
    using after first by simp_all
  have "resolved (run ?on (evs @ [Close]) ?s0) =
      Some \<lparr>r_found = True, r_matchedLine = line, allOutput = output_buf (run ?on evs ?s0)\<rparr>"
    using fnd ml r
    by (simp add: run_append deliver_def watchForPattern_event_def resolve_def)
  moreover
  let ?pre = "foldl (watch_line matcher) ?s0
                (takeWhile (\<lambda>l. \<not> matcher l) (stream_lines (stdout_chunks evs)))"
  have pre: "kills ?pre = 0" "\<not> found ?pre"
    by (simp_all add: watch_lines find_takeWhile_not)
  have "matcher line"
    using first by (rule find_Some_holds)
  with pre have "kills (watch_line matcher ?pre line) = 1"
    by (simp add: watch_line_def Let_def kill_def)
  ultimately show ?thesis
    using k r pre(1) by (simp add: W)
qed

text \<open>A plain watch for \<open>connection established\<close>: the second line is the first match.\<close>

theorem watch_returns_first_match_witness:
  "make_matcher (\<lambda>p. Inl ''SyntaxError'') ''connection established'' False =
     Inr (plain_matcher ''connection established'') \<and>
   list_all is_data [Stdout (''boot'' @ [nl] @ ''Connection Established now'' @ [nl]),
                     Stderr ''noise'', Stdout ''connection established again''] \<and>
   find (plain_matcher ''connection established'')
     (stream_lines (stdout_chunks
        [Stdout (''boot'' @ [nl] @ ''Connection Established now'' @ [nl]),
         Stderr ''noise'', Stdout ''connection established again''])) =
     Some ''Connection Established now'' \<and>
   resolved (watchForPattern (\<lambda>p. Inl ''SyntaxError'') ''connection established'' False None 30
      ([Stdout (''boot'' @ [nl] @ ''Connection Established now'' @ [nl]),
        Stderr ''noise'', Stdout ''connection established again''] @ [Close])) =
     Some \<lparr>r_found = True, r_matchedLine = ''Connection Established now'',
           allOutput = output_buf
             (watchForPattern (\<lambda>p. Inl ''SyntaxError'') ''connection established'' False None 30
                [Stdout (''boot'' @ [nl] @ ''Connection Established now'' @ [nl]),
                 Stderr ''noise'', Stdout ''connection established again''])\<rparr>"
proof -
  have h1: "make_matcher (\<lambda>p. Inl ''SyntaxError'') ''connection established'' False =
     Inr (plain_matcher ''connection established'')"
    by (simp add: make_matcher_def)
  have h2: "list_all is_data [Stdout (''boot'' @ [nl] @ ''Connection Established now'' @ [nl]),
                  Stderr ''noise'', Stdout ''connection established again'']"
    by simp
  have h3: "find (plain_matcher ''connection established'')
     (stream_lines (stdout_chunks
        [Stdout (''boot'' @ [nl] @ ''Connection Established now'' @ [nl]),
         Stderr ''noise'', Stdout ''connection established again''])) =
     Some ''Connection Established now''"
    by code_simp
  from watch_returns_first_match [OF h1 h2 h3, of None 30] h1 h2 h3
  show ?thesis by blast
qed

text \<open>
  Claim C4 as stated fails. A plain watch for \<open>ok\<close> over output that contains the line \<open>ok\<close>
  returns \<open>found = false\<close> when the timer fires before the line arrives, and also when the
  line arrives cut into the chunks \<open>o\<close> and \<open>k\<close>; and when the line has arrived and
  matched but the child does not close, nothing is returned.
\<close>

theorem watch_match_not_returned_counterexample:
  "resolved (watchForPattern (\<lambda>p. Inl ''SyntaxError'') ''ok'' False None 30
               [Timeout, Stdout ''ok'', Close]) =
     Some \<lparr>r_found = False, r_matchedLine = [], allOutput = timeout_note\<rparr> \<and>
   resolved (watchForPattern (\<lambda>p. Inl ''SyntaxError'') ''ok'' False None 30
               [Stdout ''o'', Stdout ''k'', Close]) =
     Some \<lparr>r_found = False, r_matchedLine = [], allOutput = ''o'' @ [nl] @ ''k'' @ [nl]\<rparr> \<and>
   resolved (watchForPattern (\<lambda>p. Inl ''SyntaxError'') ''ok'' False None 30
               [Stdout ''ok'', Stderr ''late'']) = None"
  by code_simp

subsection \<open>Match against timer\<close>
text \<open>
  Claim C5. The race between the match and the timer of \<open>watchForPattern\<close>. If, when the
  timer fires, no match has been seen and the promise is still open, the call is resolved
  as not found with the timeout note appended to the output, the child is sent a \<open>kill\<close>,
  and whatever arrives later, a matching line or the \<open>close\<close> included, leaves that result
  as it is. If a match has been seen when the timer fires, the timer does nothing at all.
\<close>

theorem watch_timeout_race:
  assumes m: "make_matcher RegExp pattern useRegex = Inr matcher"
  shows "(\<not> found (watchForPattern RegExp pattern useRegex process timeoutSeconds before) \<and>
          resolved (watchForPattern RegExp pattern useRegex process timeoutSeconds before) = None \<longrightarrow>
            resolved (watchForPattern RegExp pattern useRegex process timeoutSeconds
                        (before @ [Timeout] @ later)) =
              Some \<lparr>r_found = False, r_matchedLine = [],
                    allOutput = output_buf
                      (watchForPattern RegExp pattern useRegex process timeoutSeconds before) @
                      timeout_note\<rparr> \<and>
            kills (watchForPattern RegExp pattern useRegex process timeoutSeconds
                     (before @ [Timeout])) =
              kills (watchForPattern RegExp pattern useRegex process timeoutSeconds before) + 1) \<and>
         (found (watchForPattern RegExp pattern useRegex process timeoutSeconds before) \<longrightarrow>
            watchForPattern RegExp pattern useRegex process timeoutSeconds (before @ [Timeout]) =
              watchForPattern RegExp pattern useRegex process timeoutSeconds before)"
proof -
  define s0 where "s0 = setTimeout (timeoutSeconds * 1000) (listen
          (spawn ''log''
             ([''stream'', ''--style'', ''compact''] @
              (case process of None \<Rightarrow> [] | Some p \<Rightarrow>
                 if p = [] then []
                 else [''--predicate'', ''processImagePath CONTAINS '' @ [dq] @ p @ [dq]]))
             fresh_watch))"
  define s where "s = run (watchForPattern_event matcher) before s0"
  let ?on = "watchForPattern_event matcher"
  have W: "watchForPattern RegExp pattern useRegex process timeoutSeconds es = run ?on es s0" for es
    by (simp add: watchForPattern_valid [OF m] s0_def)
  have tm: "timer s = Some (timeoutSeconds * 1000)"
    by (simp add: s_def s0_def)
  have fire: "deliver ?on Timeout s = watchForPattern_event matcher Timeout s"
    using tm by (simp add: deliver_def)
  have lost: "deliver ?on Timeout s = s" if "found s"
    using that by (simp add: fire watchForPattern_event_def)
  have won: "resolved (run ?on later (deliver ?on Timeout s)) =
           Some \<lparr>r_found = False, r_matchedLine = [], allOutput = output_buf s @ timeout_note\<rparr>"
      and killed: "kills (deliver ?on Timeout s) = kills s + 1"
    if "\<not> found s" "resolved s = None"
  proof -
    have t: "deliver ?on Timeout s =
        (kill s)\<lparr>resolved := Some \<lparr>r_found = False, r_matchedLine = [],
                                    allOutput = output_buf s @ timeout_note\<rparr>\<rparr>"
      using that by (simp add: fire watchForPattern_event_def Let_def resolve_def kill_def)
    show "kills (deliver ?on Timeout s) = kills s + 1"
      by (simp add: t kill_def)
    show "resolved (run ?on later (deliver ?on Timeout s)) =
           Some \<lparr>r_found = False, r_matchedLine = [], allOutput = output_buf s @ timeout_note\<rparr>"
      by (rule run_resolved_keep) (simp_all add: watch_event_keep t)
  qed
  have split: "run ?on (before @ [Timeout] @ later) s0 = run ?on later (deliver ?on Timeout s)"
    "run ?on (before @ [Timeout]) s0 = deliver ?on Timeout s"
    by (simp_all add: run_append s_def)
  show ?thesis
    unfolding W split unfolding s_def [symmetric]
    using lost won killed by simp
qed

text \<open>A two-second watch for \<open>ok\<close>: once with the match after the timer, once before it.\<close>

theorem watch_timeout_race_witness:
  "make_matcher (\<lambda>p. Inl ''SyntaxError'') ''ok'' False = Inr (plain_matcher ''ok'') \<and>
   \<not> found (watchForPattern (\<lambda>p. Inl ''SyntaxError'') ''ok'' False None 2 [Stdout ''boot'']) \<and>
   resolved (watchForPattern (\<lambda>p. Inl ''SyntaxError'') ''ok'' False None 2 [Stdout ''boot'']) = None \<and>
   resolved (watchForPattern (\<lambda>p. Inl ''SyntaxError'') ''ok'' False None 2
               ([Stdout ''boot''] @ [Timeout] @ [Stdout ''ok'', Close])) =
     Some \<lparr>r_found = False, r_matchedLine = [],
           allOutput = output_buf
             (watchForPattern (\<lambda>p. Inl ''SyntaxError'') ''ok'' False None 2 [Stdout ''boot'']) @
             timeout_note\<rparr> \<and>
   found (watchForPattern (\<lambda>p. Inl ''SyntaxError'') ''ok'' False None 2 [Stdout ''ok'']) \<and>
   watchForPattern (\<lambda>p. Inl ''SyntaxError'') ''ok'' False None 2 ([Stdout ''ok''] @ [Timeout]) =
     watchForPattern (\<lambda>p. Inl ''SyntaxError'') ''ok'' False None 2 [Stdout ''ok'']"
proof -
  have h: "make_matcher (\<lambda>p. Inl ''SyntaxError'') ''ok'' False = Inr (plain_matcher ''ok'')"
    by (simp add: make_matcher_def)
  have a: "\<not> found (watchForPattern (\<lambda>p. Inl ''SyntaxError'') ''ok'' False None 2 [Stdout ''boot''])"
    by code_simp
  have b: "resolved (watchForPattern (\<lambda>p. Inl ''SyntaxError'') ''ok'' False None 2 [Stdout ''boot'']) = None"
    by code_simp
  have c: "found (watchForPattern (\<lambda>p. Inl ''SyntaxError'') ''ok'' False None 2 [Stdout ''ok''])"
    by code_simp
  from watch_timeout_race [OF h, of None 2 "[Stdout ''boot'']" "[Stdout ''ok'', Close]"]
    watch_timeout_race [OF h, of None 2 "[Stdout ''ok'']" "[]"] h a b c
  show ?thesis by blast
qed

section \<open>Calls that return before listening\<close>

text \<open>A call that returned before attaching listeners: nothing but an unhandled \<open>error\<close>
  can happen to its state.\<close>

lemma run_deaf:
  assumes "\<not> listening s" and "timer s = None"
  shows "run on_event evs s = (if \<exists>msg. Error msg \<in> set evs then s\<lparr>unhandled := True\<rparr> else s)"
  using assms
proof (induction evs arbitrary: s)
  case Nil
  show ?case by simp
next
  case (Cons ev evs)
  show ?case
  proof (cases ev)
    case (Error msg)
    have "run on_event evs (s\<lparr>unhandled := True\<rparr>) =
        (if \<exists>msg. Error msg \<in> set evs then s\<lparr>unhandled := True, unhandled := True\<rparr>
         else s\<lparr>unhandled := True\<rparr>)"
      using Cons.prems by (subst Cons.IH) simp_all
    with Error Cons.prems show ?thesis
      by (auto simp: deliver_def)
  qed (use Cons in \<open>simp_all add: deliver_def\<close>)
qed

lemma searchLogs_invalid:
  assumes "make_matcher RegExp pattern useRegex = Inl e"
  shows "searchLogs RegExp pattern lastMinutes maxLines useRegex evs =
     (let s = resolve (''Invalid regex pattern: '' @ pattern @ [nl] @ ''Error: '' @ e)
                (spawn ''log'' [''show'', ''--last'', show_int lastMinutes @ ''m'', ''--style'', ''compact'']
                   fresh_counted)
      in if \<exists>msg. Error msg \<in> set evs then s\<lparr>unhandled := True\<rparr> else s)"
proof -
  define s where "s = resolve (''Invalid regex pattern: '' @ pattern @ [nl] @ ''Error: '' @ e)
                (spawn ''log'' [''show'', ''--last'', show_int lastMinutes @ ''m'', ''--style'', ''compact'']
                   (fresh_counted :: string counted))"
  have deaf: "\<not> listening s" "timer s = None"
    by (simp_all add: s_def session_ops)
  have "searchLogs RegExp pattern lastMinutes maxLines useRegex evs = run (\<lambda>ev s. s) evs s"
    by (simp add: searchLogs_def assms s_def)
  also have "\<dots> = (if \<exists>msg. Error msg \<in> set evs then s\<lparr>unhandled := True\<rparr> else s)"
    by (rule run_deaf [OF deaf])
  finally show ?thesis
    unfolding Let_def s_def .
qed

lemma watchForPattern_invalid:
  assumes "make_matcher RegExp pattern useRegex = Inl e"
  shows "watchForPattern RegExp pattern useRegex process timeoutSeconds evs =
     (let s = resolve \<lparr>r_found = False, r_matchedLine = [], allOutput = ''Invalid regex: '' @ e\<rparr>
                (spawn ''log''
                   ([''stream'', ''--style'', ''compact''] @
                    (case process of None \<Rightarrow> [] | Some p \<Rightarrow>
                       if p = [] then []
                       else [''--predicate'', ''processImagePath CONTAINS '' @ [dq] @ p @ [dq]]))
                   fresh_watch)
      in if \<exists>msg. Error msg \<in> set evs then s\<lparr>unhandled := True\<rparr> else s)"
proof -
  define s where "s = resolve \<lparr>r_found = False, r_matchedLine = [], allOutput = ''Invalid regex: '' @ e\<rparr>
                (spawn ''log''
                   ([''stream'', ''--style'', ''compact''] @
                    (case process of None \<Rightarrow> [] | Some p \<Rightarrow>
                       if p = [] then []
                       else [''--predicate'', ''processImagePath CONTAINS '' @ [dq] @ p @ [dq]]))
                   fresh_watch)"
  have deaf: "\<not> listening s" "timer s = None"
    by (simp_all add: s_def session_ops)
  have "watchForPattern RegExp pattern useRegex process timeoutSeconds evs = run (\<lambda>ev s. s) evs s"
    by (simp add: watchForPattern_def assms s_def)
  also have "\<dots> = (if \<exists>msg. Error msg \<in> set evs then s\<lparr>unhandled := True\<rparr> else s)"
    by (rule run_deaf [OF deaf])
  finally show ?thesis
    unfolding Let_def s_def .
qed

subsection \<open>An invalid regular expression\<close>

text \<open>
  Claim C2, on the code. With \<open>useRegex\<close> set and a pattern the engine rejects with the
  exception text \<open>e\<close>, \<open>searchLogs\<close> resolves with the invalid-pattern message and
  \<open>watchForPattern\<close> with \<open>found = false\<close> and \<open>Invalid regex: e\<close>, as the claim says. But
  the process has been started by then: \<open>spawn\<close> is the statement before the construction
  of the expression, and the early return leaves the child with no listener, no timer and
  no \<open>kill\<close>, whatever happens afterwards. The second half of the claim, that no process is
  started before the pattern is validated, does not hold of the code.
\<close>

theorem invalid_regex_after_spawn:
  assumes "RegExp pattern = Inl e"
  shows "resolved (searchLogs RegExp pattern lastMinutes maxLines True evs) =
           Some (''Invalid regex pattern: '' @ pattern @ [nl] @ ''Error: '' @ e) \<and>
         spawned (searchLogs RegExp pattern lastMinutes maxLines True evs) =
           [(''log'', [''show'', ''--last'', show_int lastMinutes @ ''m'', ''--style'', ''compact''])] \<and>
         kills (searchLogs RegExp pattern lastMinutes maxLines True evs) = 0 \<and>
         \<not> listening (searchLogs RegExp pattern lastMinutes maxLines True evs) \<and>
         timer (searchLogs RegExp pattern lastMinutes maxLines True evs) = None \<and>
         resolved (watchForPattern RegExp pattern True process timeoutSeconds evs) =
           Some \<lparr>r_found = False, r_matchedLine = [], allOutput = ''Invalid regex: '' @ e\<rparr> \<and>
         spawned (watchForPattern RegExp pattern True process timeoutSeconds evs) =
           [(''log'', [''stream'', ''--style'', ''compact''] @
              (case process of None \<Rightarrow> [] | Some p \<Rightarrow>
                 if p = [] then []
                 else [''--predicate'', ''processImagePath CONTAINS '' @ [dq] @ p @ [dq]]))] \<and>
         kills (watchForPattern RegExp pattern True process timeoutSeconds evs) = 0 \<and>
         \<not> listening (watchForPattern RegExp pattern True process timeoutSeconds evs) \<and>
         timer (watchForPattern RegExp pattern True process timeoutSeconds evs) = None"
proof -
  from assms have rejected: "make_matcher RegExp pattern True = Inl e"
    by (simp add: make_matcher_def)
  show ?thesis
    by (simp add: searchLogs_invalid [OF rejected] watchForPattern_invalid [OF rejected]
        Let_def session_ops)
qed

text \<open>The pattern \<open>[\<close>, with an engine that rejects it: \<open>log show --last 30m --style compact\<close>
  and \<open>log stream --style compact\<close> have been spawned, and nothing kills them.\<close>

theorem invalid_regex_after_spawn_witness:
  "(\<lambda>p. if p = ''['' then Inl ''SyntaxError: Invalid regular expression: /[/: Unterminated character class''
         else Inr (\<lambda>line. False)) ''['' =
     (Inl ''SyntaxError: Invalid regular expression: /[/: Unterminated character class'' :: string + matcher) \<and>
   spawned (searchLogs
      (\<lambda>p. if p = ''['' then Inl ''SyntaxError: Invalid regular expression: /[/: Unterminated character class''
            else Inr (\<lambda>line. False)) ''['' 30 100 True []) =
     [(''log'', [''show'', ''--last'', ''30m'', ''--style'', ''compact''])] \<and>
   spawned (watchForPattern
      (\<lambda>p. if p = ''['' then Inl ''SyntaxError: Invalid regular expression: /[/: Unterminated character class''
            else Inr (\<lambda>line. False)) ''['' True None 30 []) =
     [(''log'', [''stream'', ''--style'', ''compact''])] \<and>
   kills (watchForPattern
      (\<lambda>p. if p = ''['' then Inl ''SyntaxError: Invalid regular expression: /[/: Unterminated character class''
            else Inr (\<lambda>line. False)) ''['' True None 30 []) = 0"
proof -
  let ?R = "\<lambda>p. if p = ''['' then Inl ''SyntaxError: Invalid regular expression: /[/: Unterminated character class''
         else (Inr (\<lambda>line. False) :: string + matcher)"
  have h: "?R ''['' = Inl ''SyntaxError: Invalid regular expression: /[/: Unterminated character class''"
    by simp
  have m: "show_int 30 = ''30''"
    by code_simp
  from invalid_regex_after_spawn [where RegExp = ?R and pattern = "''[''", OF h, of 30 100 "[]" None 30] m
  show ?thesis by simp
qed

subsection \<open>A spawn failure after the early return\<close>
text \<open>
  Claim C7, on the code. Where the listeners are attached a spawn failure is resolved as an
  error text (the lemmas on spawn failure further down, one for each function). After the early
  return on an invalid pattern, though, the child that was spawned before the validation
  has no \<open>error\<close> listener: when the command does not exist its \<open>error\<close> event is
  unhandled, which the runtime throws as an uncaught exception, and the result of the call
  is the invalid-pattern message, not a process error. This is the same defect as in
  claim C2.
\<close>

theorem spawn_failure_unhandled_after_invalid_regex:
  assumes "RegExp pattern = Inl e"
  shows "unhandled (searchLogs RegExp pattern lastMinutes maxLines True
                      (before @ [Error msg] @ later)) \<and>
         resolved (searchLogs RegExp pattern lastMinutes maxLines True
                     (before @ [Error msg] @ later)) =
           Some (''Invalid regex pattern: '' @ pattern @ [nl] @ ''Error: '' @ e) \<and>
         unhandled (watchForPattern RegExp pattern True process timeoutSeconds
                      (before @ [Error msg] @ later)) \<and>
         resolved (watchForPattern RegExp pattern True process timeoutSeconds
                     (before @ [Error msg] @ later)) =
           Some \<lparr>r_found = False, r_matchedLine = [], allOutput = ''Invalid regex: '' @ e\<rparr>"
proof -
  from assms have rejected: "make_matcher RegExp pattern True = Inl e"
    by (simp add: make_matcher_def)
  have ex: "\<exists>m. Error m \<in> set (before @ [Error msg] @ later)"
    by auto
  show ?thesis
    unfolding searchLogs_invalid [OF rejected] watchForPattern_invalid [OF rejected] Let_def
    using ex by (simp add: session_ops)
qed

text \<open>The pattern \<open>[\<close> on a host without the \<open>log\<close> command.\<close>

theorem spawn_failure_unhandled_after_invalid_regex_witness:
  "(\<lambda>p. if p = ''['' then Inl ''SyntaxError'' else Inr (\<lambda>line. False)) ''['' =
     (Inl ''SyntaxError'' :: string + matcher) \<and>
   unhandled (searchLogs (\<lambda>p. if p = ''['' then Inl ''SyntaxError'' else Inr (\<lambda>line. False))
      ''['' 30 100 True ([] @ [Error ''spawn log ENOENT''] @ [Close])) \<and>
   unhandled (watchForPattern (\<lambda>p. if p = ''['' then Inl ''SyntaxError'' else Inr (\<lambda>line. False))
      ''['' True None 30 ([] @ [Error ''spawn log ENOENT''] @ [Close]))"
proof -
  let ?R = "\<lambda>p. if p = ''['' then Inl ''SyntaxError'' else (Inr (\<lambda>line. False) :: string + matcher)"
  have h: "?R ''['' = Inl ''SyntaxError''"
    by simp
  from spawn_failure_unhandled_after_invalid_regex
         [where RegExp = ?R and pattern = "''[''", OF h, of 30 100 "[]" "''spawn log ENOENT''" "[Close]" None 30] h
  show ?thesis by blast
qed

section \<open>What the handlers preserve, and the timers\<close>

lemma step_unhandled [simp]:
  "unhandled (collect_line N s l) = unhandled s"
  "unhandled (search_line m N s l) = unhandled s"
  "unhandled (device_line N s l) = unhandled s"
  "unhandled (watch_line m w l) = unhandled w"
  by (simp_all add: collect_line_def search_line_def device_line_def watch_line_def Let_def kill_def)

lemma resolve_keeps: "resolved s \<noteq> None \<Longrightarrow> resolved (resolve r s) = resolved s"
  by (simp add: resolve_def)

lemma resolve_sets: "resolved s = None \<Longrightarrow> resolved (resolve r s) = Some r"
  by (simp add: resolve_def)

lemmas handler_defs =
  getMacLogs_event_def searchLogs_event_def getLogsByLevel_event_def getDeviceLogs_event_def
  getSimulatorLogs_event_def streamSimulatorLogs_event_def streamDeviceLogs_event_def
  watchForPattern_event_def

text \<open>No handler touches the timer, the listeners or the unhandled mark, and none reopens a
  resolved promise.\<close>

lemma handler_timer [simp]:
  "timer (getMacLogs_event N ev s) = timer s"
  "timer (searchLogs_event q m N ev s) = timer s"
  "timer (getLogsByLevel_event lvl N ev s) = timer s"
  "timer (getSimulatorLogs_event sim N ev s) = timer s"
  "timer (streamSimulatorLogs_event sim ev t) = timer t"
  "timer (streamDeviceLogs_event ev t) = timer t"
  by (cases ev; simp add: handler_defs session_ops Let_def foldl_frame)+

lemma handler_listening [simp]:
  "listening (getMacLogs_event N ev s) = listening s"
  "listening (searchLogs_event q m N ev s) = listening s"
  "listening (getLogsByLevel_event lvl N ev s) = listening s"
  "listening (getDeviceLogs_event udid N ev s) = listening s"
  "listening (getSimulatorLogs_event sim N ev s) = listening s"
  "listening (streamSimulatorLogs_event sim ev t) = listening t"
  "listening (streamDeviceLogs_event ev t) = listening t"
  by (cases ev; simp add: handler_defs session_ops Let_def foldl_frame)+

lemma handler_unhandled [simp]:
  "unhandled (getMacLogs_event N ev s) = unhandled s"
  "unhandled (searchLogs_event q m N ev s) = unhandled s"
  "unhandled (getLogsByLevel_event lvl N ev s) = unhandled s"
  "unhandled (getDeviceLogs_event udid N ev s) = unhandled s"
  "unhandled (getSimulatorLogs_event sim N ev s) = unhandled s"
  "unhandled (streamSimulatorLogs_event sim ev t) = unhandled t"
  "unhandled (streamDeviceLogs_event ev t) = unhandled t"
  "unhandled (watchForPattern_event m ev w) = unhandled w"
  by (cases ev; simp add: handler_defs session_ops Let_def foldl_frame)+

lemma handler_keep:
  "resolved s = Some r \<Longrightarrow> resolved (getMacLogs_event N ev s) = Some r"
  "resolved s = Some r \<Longrightarrow> resolved (searchLogs_event q m N ev s) = Some r"
  "resolved s = Some r \<Longrightarrow> resolved (getLogsByLevel_event lvl N ev s) = Some r"
  "resolved s = Some r \<Longrightarrow> resolved (getDeviceLogs_event udid N ev s) = Some r"
  "resolved s = Some r \<Longrightarrow> resolved (getSimulatorLogs_event sim N ev s) = Some r"
  "resolved t = Some r \<Longrightarrow> resolved (streamSimulatorLogs_event sim ev t) = Some r"
  "resolved t = Some r \<Longrightarrow> resolved (streamDeviceLogs_event ev t) = Some r"
  by (cases ev; simp add: handler_defs session_ops Let_def foldl_frame)+

text \<open>Outside the watch, the timer handler always resolves.\<close>

lemma handler_fires [simp]:
  "resolved (getMacLogs_event N Timeout s) \<noteq> None"
  "resolved (searchLogs_event q m N Timeout s) \<noteq> None"
  "resolved (getLogsByLevel_event lvl N Timeout s) \<noteq> None"
  "resolved (getDeviceLogs_event udid N Timeout s) \<noteq> None"
  "resolved (getSimulatorLogs_event sim N Timeout s) \<noteq> None"
  "resolved (streamSimulatorLogs_event sim Timeout t) \<noteq> None"
  "resolved (streamDeviceLogs_event Timeout t) \<noteq> None"
  by (simp_all add: handler_defs session_ops Let_def)

lemma run_stays_resolved:
  assumes keep: "\<And>ev s r. resolved s = Some r \<Longrightarrow> resolved (on_event ev s) = Some r"
    and s: "resolved s \<noteq> None"
  shows "resolved (run on_event evs s) \<noteq> None"
proof -
  from s obtain r where r: "resolved s = Some r" by auto
  have "resolved (run on_event evs s) = Some r"
    by (rule run_resolved_keep [where on_event = on_event]) (simp_all add: keep r)
  then show ?thesis by simp
qed

lemma run_timer_resolves:
  assumes T: "\<And>ev s. timer (on_event ev s) = timer s"
    and keep: "\<And>ev s r. resolved s = Some r \<Longrightarrow> resolved (on_event ev s) = Some r"
    and fires: "\<And>s. resolved (on_event Timeout s) \<noteq> None"
    and armed: "timer s \<noteq> None"
    and ev: "Timeout \<in> set evs"
  shows "resolved (run on_event evs s) \<noteq> None"
proof -
  from ev obtain xs ys where evs: "evs = xs @ Timeout # ys"
    by (auto dest: split_list)
  have "timer (run on_event xs s) = timer s"
    by (rule run_frame) (simp_all add: T)
  with armed have "deliver on_event Timeout (run on_event xs s) = on_event Timeout (run on_event xs s)"
    by (auto simp: deliver_def)
  then have "resolved (deliver on_event Timeout (run on_event xs s)) \<noteq> None"
    by (simp add: fires)
  then have "resolved (run on_event ys (deliver on_event Timeout (run on_event xs s))) \<noteq> None"
    by (intro run_stays_resolved [where on_event = on_event]) (simp_all add: keep)
  then show ?thesis
    by (simp add: evs run_append)
qed

lemma settled_run:
  assumes T: "\<And>ev s. timer (on_event ev s) = timer s"
    and keep: "\<And>ev s r. resolved s = Some r \<Longrightarrow> resolved (on_event ev s) = Some r"
    and fires: "\<And>s. resolved (on_event Timeout s) \<noteq> None"
    and ms: "ms \<le> bound"
  shows "settled_by_timer bound evs (run on_event evs (setTimeout ms s))"
proof -
  have tm: "timer (run on_event evs (setTimeout ms s)) = Some ms"
    using run_frame [where f = timer and on_event = on_event and s = "setTimeout ms s"] T
    by (simp add: setTimeout_def)
  have "resolved (run on_event evs (setTimeout ms s)) \<noteq> None" if "Timeout \<in> set evs"
    by (rule run_timer_resolves [where on_event = on_event])
       (simp_all add: T keep fires that setTimeout_def)
  with tm ms show ?thesis
    by (simp add: settled_by_timer_def timer_within_def)
qed

lemma settled_at_once:
  assumes "resolved s \<noteq> None" and "timer s = None" and "\<not> listening s"
  shows "settled_by_timer bound evs (run on_event evs s)"
  using assms by (simp add: run_deaf settled_by_timer_def timer_within_def)

lemma getMacLogs_settled:
  "settled_by_timer 15000 evs (getMacLogs subsystem process lastMinutes maxLines evs)"
  unfolding getMacLogs_def by (rule settled_run) (simp_all add: handler_keep)

lemma getLogsByLevel_settled:
  "settled_by_timer 15000 evs (getLogsByLevel level process lastMinutes maxLines evs)"
  unfolding getLogsByLevel_def by (rule settled_run) (simp_all add: handler_keep)

lemma getDeviceLogs_settled:
  assumes "lastMinutes \<le> 10"
  shows "settled_by_timer 10000 evs (getDeviceLogs has udid process lastMinutes maxLines evs)"
proof (cases has)
  case True
  show ?thesis
    unfolding getDeviceLogs_def using True assms
    by (simp, intro settled_run) (simp_all add: handler_keep collectDuration_def)
next
  case False
  show ?thesis
    unfolding getDeviceLogs_def using False
    by (simp, intro settled_at_once) (simp_all add: session_ops)
qed

lemma getSimulatorLogs_settled:
  "settled_by_timer 15000 evs (getSimulatorLogs findSimulator udid process lastMinutes maxLines evs)"
proof (cases "findSimulator udid")
  case None
  show ?thesis
    unfolding getSimulatorLogs_def None option.case
    by (rule settled_at_once) (simp_all add: session_ops)
next
  case (Some sim)
  show ?thesis
  proof (cases "sim_state sim = ''Booted''")
    case True
    then have booted: "\<not> sim_state sim \<noteq> ''Booted''"
      by simp
    show ?thesis
      unfolding getSimulatorLogs_def Some option.case if_not_P [OF booted]
      by (rule settled_run) (simp_all add: handler_keep)
  next
    case False
    show ?thesis
      unfolding getSimulatorLogs_def Some option.case if_P [OF False]
      by (rule settled_at_once) (simp_all add: session_ops)
  qed
qed

lemma streamSimulatorLogs_settled:
  assumes "durationSeconds \<le> 30"
  shows "settled_by_timer 30000 evs (streamSimulatorLogs findSimulator udid process durationSeconds evs)"
proof (cases "findSimulator udid")
  case None
  show ?thesis
    unfolding streamSimulatorLogs_def None option.case
    by (rule settled_at_once) (simp_all add: session_ops)
next
  case (Some sim)
  show ?thesis
  proof (cases "sim_state sim = ''Booted''")
    case True
    then have booted: "\<not> sim_state sim \<noteq> ''Booted''"
      by simp
    show ?thesis
      unfolding streamSimulatorLogs_def Some option.case if_not_P [OF booted]
      by (rule settled_run) (simp_all add: handler_keep assms)
  next
    case False
    show ?thesis
      unfolding streamSimulatorLogs_def Some option.case if_P [OF False]
      by (rule settled_at_once) (simp_all add: session_ops)
  qed
qed

lemma streamDeviceLogs_settled:
  assumes "durationSeconds \<le> 30"
  shows "settled_by_timer 30000 evs (streamDeviceLogs has udid process durationSeconds evs)"
  unfolding streamDeviceLogs_def using assms
  by (intro settled_run) (simp_all add: handler_keep)

lemma searchLogs_settled:
  "settled_by_timer 30000 evs (searchLogs RegExp query lastMinutes maxLines useRegex evs)"
proof (cases "make_matcher RegExp query useRegex")
  case (Inl e)
  show ?thesis
    unfolding searchLogs_def Let_def Inl sum.case
    by (rule settled_at_once) (simp_all add: session_ops)
next
  case (Inr m)
  show ?thesis
    unfolding searchLogs_def Let_def Inr sum.case
    by (rule settled_run) (simp_all add: handler_keep)
qed

lemma watch_timer_within:
  assumes "timeoutSeconds \<le> 60"
  shows "timer_within 60000 (watchForPattern RegExp pattern useRegex process timeoutSeconds evs)"
proof (cases "make_matcher RegExp pattern useRegex")
  case (Inl e)
  show ?thesis
    by (simp add: watchForPattern_invalid [OF Inl] Let_def timer_within_def session_ops)
next
  case (Inr m)
  show ?thesis
    using assms by (simp add: watchForPattern_valid [OF Inr] timer_within_def)
qed

lemma watch_resolved_or_found:
  "resolved (watchForPattern RegExp pattern useRegex process timeoutSeconds
               (before @ [Timeout] @ later)) \<noteq> None \<or>
   found (watchForPattern RegExp pattern useRegex process timeoutSeconds before)"
proof (cases "make_matcher RegExp pattern useRegex")
  case (Inl e)
  show ?thesis
    by (simp add: watchForPattern_invalid [OF Inl] Let_def session_ops)
next
  case (Inr m)
  define s0 where "s0 = setTimeout (timeoutSeconds * 1000) (listen
          (spawn ''log''
             ([''stream'', ''--style'', ''compact''] @
              (case process of None \<Rightarrow> [] | Some p \<Rightarrow>
                 if p = [] then []
                 else [''--predicate'', ''processImagePath CONTAINS '' @ [dq] @ p @ [dq]]))
             fresh_watch))"
  define s where "s = run (watchForPattern_event m) before s0"
  have W: "watchForPattern RegExp pattern useRegex process timeoutSeconds es =
      run (watchForPattern_event m) es s0" for es
    by (simp add: watchForPattern_valid [OF Inr] s0_def)
  have tm: "timer s = Some (timeoutSeconds * 1000)"
    by (simp add: s_def s0_def)
  have "resolved (run (watchForPattern_event m) later (deliver (watchForPattern_event m) Timeout s))
      \<noteq> None" if "\<not> found s"
  proof (rule run_stays_resolved)
    show "resolved (deliver (watchForPattern_event m) Timeout s) \<noteq> None"
      using that tm by (simp add: deliver_def watchForPattern_event_def Let_def resolve_def)
  qed (simp add: watch_event_keep)
  then show ?thesis
    unfolding W by (auto simp: run_append s_def)
qed

subsection \<open>Every call and its timer\<close>

text \<open>
  Claim C6, as amended. Every tool call other than \<open>watch_for_pattern\<close> is settled by its
  timer, whatever the child does and with every duration argument omitted or given: the
  timer is armed with at most 15 seconds (\<open>get_logs\<close>, \<open>get_vpn_logs\<close>,
  \<open>get_simulator_logs\<close>, \<open>get_logs_by_level\<close>), 10 seconds (\<open>get_device_logs\<close>) or
  30 seconds (\<open>stream_logs\<close>, \<open>stream_simulator_logs\<close>, \<open>search_logs\<close>), or the call is
  resolved at once with no timer; and once the timer has fired the call is resolved.
  \<open>watch_for_pattern\<close> arms its timer with at most 60 seconds, and once that timer has
  fired the call is resolved unless a match had been seen before: then the timer does
  nothing, and the call is resolved by the \<open>close\<close> or \<open>error\<close> of the child only.
\<close>

theorem calls_settled_by_timer:
  "settled_by_timer 15000 evs (get_logs process subsystem lastMinutes maxLines evs) \<and>
   settled_by_timer 15000 evs (get_vpn_logs lastMinutes maxLines evs) \<and>
   settled_by_timer 10000 evs (get_device_logs has udid process lastMinutes maxLines evs) \<and>
   settled_by_timer 15000 evs
     (get_simulator_logs findSimulator udid process lastMinutes maxLines evs) \<and>
   settled_by_timer 30000 evs (stream_logs has process durationSeconds evs) \<and>
   reply_or_call (settled_by_timer 30000 evs)
     (stream_simulator_logs findSimulator simulatorId process durationSeconds evs) \<and>
   reply_or_call (settled_by_timer 30000 evs)
     (search_logs RegExp query useRegex lastMinutes maxLines evs) \<and>
   reply_or_call (settled_by_timer 15000 evs)
     (get_logs_by_level level process lastMinutes maxLines evs) \<and>
   reply_or_call (timer_within 60000)
     (watch_for_pattern RegExp pattern useRegex process timeoutSeconds evs) \<and>
   (resolved (watchForPattern RegExp pattern useRegex process timeout
                (before @ [Timeout] @ later)) \<noteq> None \<or>
    found (watchForPattern RegExp pattern useRegex process timeout before))"
proof (intro conjI)
  show "settled_by_timer 15000 evs (get_logs process subsystem lastMinutes maxLines evs)"
    by (simp add: get_logs_def getMacLogs_settled)
  show "settled_by_timer 15000 evs (get_vpn_logs lastMinutes maxLines evs)"
    by (simp add: get_vpn_logs_def getMacLogs_settled)
  show "settled_by_timer 10000 evs (get_device_logs has udid process lastMinutes maxLines evs)"
    by (simp add: get_device_logs_def getDeviceLogs_settled)
  show "settled_by_timer 15000 evs
     (get_simulator_logs findSimulator udid process lastMinutes maxLines evs)"
    by (simp add: get_simulator_logs_def getSimulatorLogs_settled)
  show "settled_by_timer 30000 evs (stream_logs has process durationSeconds evs)"
    by (simp add: stream_logs_def streamDeviceLogs_settled)
  show "reply_or_call (settled_by_timer 30000 evs)
     (stream_simulator_logs findSimulator simulatorId process durationSeconds evs)"
    by (simp add: stream_simulator_logs_def reply_or_call_def streamSimulatorLogs_settled)
  show "reply_or_call (settled_by_timer 30000 evs)
     (search_logs RegExp query useRegex lastMinutes maxLines evs)"
    by (simp add: search_logs_def reply_or_call_def searchLogs_settled)
  show "reply_or_call (settled_by_timer 15000 evs)
     (get_logs_by_level level process lastMinutes maxLines evs)"
    by (simp add: get_logs_by_level_def reply_or_call_def getLogsByLevel_settled)
  show "reply_or_call (timer_within 60000)
     (watch_for_pattern RegExp pattern useRegex process timeoutSeconds evs)"
    by (simp add: watch_for_pattern_def reply_or_call_def watch_timer_within)
  show "resolved (watchForPattern RegExp pattern useRegex process timeout
                (before @ [Timeout] @ later)) \<noteq> None \<or>
    found (watchForPattern RegExp pattern useRegex process timeout before)"
    by (rule watch_resolved_or_found)
qed

text \<open>Calls with every optional argument omitted, a chunk of output and then the timer.\<close>

theorem calls_settled_by_timer_witness:
  "Timeout \<in> set [Stdout ''x'', Timeout] \<and>
   resolved (get_logs None None None None [Stdout ''x'', Timeout]) \<noteq> None \<and>
   resolved (stream_logs False None None [Stdout ''x'', Timeout]) \<noteq> None \<and>
   \<not> found (watchForPattern (\<lambda>p. Inl ''SyntaxError'') ''ok'' False None 30 [Stdout ''x'']) \<and>
   resolved (watchForPattern (\<lambda>p. Inl ''SyntaxError'') ''ok'' False None 30
               ([Stdout ''x''] @ [Timeout] @ [Stdout ''ok''])) \<noteq> None"
proof -
  have h: "Timeout \<in> set [Stdout ''x'', Timeout]"
    by simp
  have nf: "\<not> found (watchForPattern (\<lambda>p. Inl ''SyntaxError'') ''ok'' False None 30 [Stdout ''x''])"
    by code_simp
  from calls_settled_by_timer [where evs = "[Stdout ''x'', Timeout]" and process = None
      and subsystem = None and lastMinutes = None and maxLines = None and has = False
      and durationSeconds = None and RegExp = "\<lambda>p. Inl ''SyntaxError''" and pattern = "''ok''"
      and useRegex = False and timeout = 30 and before = "[Stdout ''x'']"
      and later = "[Stdout ''ok'']" and udid = "[]" and findSimulator = "\<lambda>u. None"
      and simulatorId = "[]" and query = "[]" and level = "[]" and timeoutSeconds = None] h nf
  show ?thesis
    by (simp add: settled_by_timer_def)
qed

text \<open>
  Claim C6 as stated fails for \<open>watch_for_pattern\<close> with a child that never exits: after
  a match (and the \<open>kill\<close> it sends) the timer fires and resolves nothing, and without a
  \<open>close\<close> the call stays unresolved.
\<close>

theorem watch_unresolved_after_match_counterexample:
  "found (watchForPattern (\<lambda>p. Inl ''SyntaxError'') ''ok'' False None 30
            [Stdout ''ok'', Timeout, Stdout ''more'']) \<and>
   kills (watchForPattern (\<lambda>p. Inl ''SyntaxError'') ''ok'' False None 30
            [Stdout ''ok'', Timeout, Stdout ''more'']) = 1 \<and>
   resolved (watchForPattern (\<lambda>p. Inl ''SyntaxError'') ''ok'' False None 30
               [Stdout ''ok'', Timeout, Stdout ''more'']) = None"
  by code_simp

section \<open>The output of a timed stream\<close>

lemma stream_output:
  assumes "listening s"
  shows "output_buf (run streamDeviceLogs_event evs s) = output_buf s @ concat (map chunk_text evs)"
  using assms
proof (induction evs arbitrary: s)
  case Nil
  show ?case by simp
next
  case (Cons ev evs)
  have l: "listening (deliver streamDeviceLogs_event ev s)"
    by (rule deliver_cases) (simp_all add: Cons.prems)
  have o: "output_buf (deliver streamDeviceLogs_event ev s) = output_buf s @ chunk_text ev"
    using Cons.prems
    by (cases ev) (simp_all add: deliver_def streamDeviceLogs_event_def session_ops Let_def)
  show ?case
    by (simp add: Cons.IH [OF l] o)
qed

lemma stream_quiet:
  assumes "list_all is_output_or_close evs"
  shows "resolved (run streamDeviceLogs_event evs s) = resolved s"
  using assms
proof (induction evs arbitrary: s)
  case Nil
  show ?case by simp
next
  case (Cons ev evs)
  have "resolved (deliver streamDeviceLogs_event ev s) = resolved s"
    using Cons.prems
    by (cases ev) (simp_all add: deliver_def streamDeviceLogs_event_def session_ops)
  with Cons show ?case by simp
qed

subsection \<open>What the timed stream returns\<close>

text \<open>
  Claim C9, as amended. \<open>stream_logs\<close> arms its timer with the duration in seconds,
  10 when omitted, clamped to at most 30. The text collected is the stdout and stderr
  chunks in arrival order. When the timer fires the child is sent a \<open>kill\<close>, and, if only
  output or the \<open>close\<close> of the child came before, the call is resolved for good with the
  collected text when there is any, and with the fixed text
  \<open>No logs captured during stream\<close> when nothing was collected; both are plain text, not
  an error.
\<close>

theorem timed_stream_returns_collected:
  "timer (stream_logs has process durationSeconds evs) =
     Some (min (num_or durationSeconds 10) 30 * 1000) \<and>
   min (num_or durationSeconds 10) 30 * 1000 \<le> 30000 \<and>
   output_buf (stream_logs has process durationSeconds evs) = concat (map chunk_text evs) \<and>
   kills (stream_logs has process durationSeconds (evs @ [Timeout])) =
     kills (stream_logs has process durationSeconds evs) + 1 \<and>
   (list_all is_output_or_close evs \<longrightarrow>
      resolved (stream_logs has process durationSeconds (evs @ [Timeout] @ later)) =
        Some (or_else (concat (map chunk_text evs)) ''No logs captured during stream''))"
proof -
  define s0 :: "string session" where "s0 =
     setTimeout (min (num_or durationSeconds 10) 30 * 1000) (listen
          ((if has then
              spawn ''idevicesyslog''
                ([''-u'', []] @
                 (case process of None \<Rightarrow> [] | Some p \<Rightarrow> if p = [] then [] else [''-p'', p]))
            else
              spawn ''log''
                ([''stream'', ''--style'', ''compact''] @
                 (case process of None \<Rightarrow> [] | Some p \<Rightarrow>
                    if p = [] then []
                    else [''--predicate'', ''processImagePath CONTAINS '' @ [dq] @ p @ [dq]])))
             fresh))"
  define s where "s = run streamDeviceLogs_event evs s0"
  have call: "stream_logs has process durationSeconds es = run streamDeviceLogs_event es s0" for es
    by (simp add: stream_logs_def streamDeviceLogs_def s0_def)
  have s0: "listening s0" "timer s0 = Some (min (num_or durationSeconds 10) 30 * 1000)"
    "output_buf s0 = []" "resolved s0 = None"
    by (simp_all add: s0_def session_ops)
  have tm: "timer s = Some (min (num_or durationSeconds 10) 30 * 1000)"
    unfolding s_def using run_frame [where f = timer and on_event = streamDeviceLogs_event and s = s0]
    by (simp add: s0)
  have out: "output_buf s = concat (map chunk_text evs)"
    unfolding s_def by (simp add: stream_output s0)
  have fire: "deliver streamDeviceLogs_event Timeout s =
      resolve (or_else (output_buf s) ''No logs captured during stream'') (kill s)"
    using tm by (simp add: deliver_def streamDeviceLogs_event_def Let_def kill_def)
  have k: "kills (deliver streamDeviceLogs_event Timeout s) = kills s + 1"
    by (simp add: fire resolve_def kill_def)
  have r: "resolved (run streamDeviceLogs_event later (deliver streamDeviceLogs_event Timeout s)) =
      Some (or_else (concat (map chunk_text evs)) ''No logs captured during stream'')"
    if "list_all is_output_or_close evs"
  proof (rule run_resolved_keep)
    have "resolved s = None"
      unfolding s_def by (simp add: stream_quiet [OF that] s0)
    then show "resolved (deliver streamDeviceLogs_event Timeout s) =
        Some (or_else (concat (map chunk_text evs)) ''No logs captured during stream'')"
      by (simp add: fire out resolve_def kill_def)
  qed (simp add: handler_keep)
  have parts: "run streamDeviceLogs_event (evs @ [Timeout] @ later) s0 =
      run streamDeviceLogs_event later (deliver streamDeviceLogs_event Timeout s)"
    "run streamDeviceLogs_event (evs @ [Timeout]) s0 = deliver streamDeviceLogs_event Timeout s"
    by (simp_all add: run_append s_def)
  show ?thesis
    unfolding call parts unfolding s_def [symmetric]
    using tm out k r by simp
qed

text \<open>A request for 45 seconds is cut to 30; the chunks \<open>a\<close> and \<open>b\<close> are returned as \<open>ab\<close>.\<close>

theorem timed_stream_returns_collected_witness:
  "list_all is_output_or_close [Stdout ''a'', Stderr ''b'', Close] \<and>
   resolved (stream_logs False None (Some 45) ([Stdout ''a'', Stderr ''b'', Close] @ [Timeout] @ [])) =
     Some ''ab'' \<and>
   timer (stream_logs False None (Some 45) [Stdout ''a'', Stderr ''b'', Close]) = Some 30000"
proof -
  have h: "list_all is_output_or_close [Stdout ''a'', Stderr ''b'', Close]"
    by simp
  from timed_stream_returns_collected [of False None "Some 45" "[Stdout ''a'', Stderr ''b'', Close]" "[]"] h
  show ?thesis
    by (simp add: or_else_def num_or_def)
qed

text \<open>
  Claim C9 as stated fails where nothing was collected: the collected text is empty, and the
  text returned is \<open>No logs captured during stream\<close>.
\<close>

theorem empty_stream_text_counterexample:
  "output_buf (stream_logs False None None [Timeout]) = [] \<and>
   resolved (stream_logs False None None [Timeout]) = Some ''No logs captured during stream''"
  by code_simp

section \<open>Spawn failure where the listeners are attached\<close>

text \<open>
  Where the listeners are attached, a spawn failure, which arrives as the first event, is
  handled: the \<open>error\<close> listener resolves the call with the error text, nothing later
  changes it, and no \<open>error\<close> event goes unhandled.
\<close>

lemma run_error_first:
  assumes keep: "\<And>ev s r. resolved s = Some r \<Longrightarrow> resolved (on_event ev s) = Some r"
    and s: "listening s" "resolved s = None"
    and err: "on_event (Error msg) s = resolve r s"
  shows "resolved (run on_event (Error msg # evs) s) = Some r"
proof -
  have "resolved (deliver on_event (Error msg) s) = Some r"
    using s err by (simp add: deliver_def resolve_def)
  then have "resolved (run on_event evs (deliver on_event (Error msg) s)) = Some r"
    by (intro run_resolved_keep [where on_event = on_event]) (simp_all add: keep)
  then show ?thesis by simp
qed

lemma run_handled:
  assumes L: "\<And>ev s. listening (on_event ev s) = listening s"
    and U: "\<And>ev s. unhandled (on_event ev s) = unhandled s"
    and s: "listening s" "\<not> unhandled s"
  shows "\<not> unhandled (run on_event evs s)"
  using s
proof (induction evs arbitrary: s)
  case Nil
  then show ?case by simp
next
  case (Cons ev evs)
  have "listening (deliver on_event ev s)" "\<not> unhandled (deliver on_event ev s)"
    using Cons.prems by (cases ev; simp add: deliver_def L U)+
  then show ?case by (simp add: Cons.IH)
qed

lemma start_state [simp]:
  "listening (setTimeout ms (listen s))"
  "resolved (setTimeout ms (listen (spawn cmd args s))) = resolved s"
  "unhandled (setTimeout ms (listen (spawn cmd args s))) = unhandled s"
  by (simp_all add: session_ops)

lemma handler_error:
  "getMacLogs_event N (Error msg) s = resolve (''Error: '' @ msg) s"
  "searchLogs_event q m N (Error msg) s = resolve (''Error: '' @ msg) s"
  "getLogsByLevel_event lvl N (Error msg) s = resolve (''Error: '' @ msg) s"
  "getDeviceLogs_event udid N (Error msg) s =
     resolve (''Error: '' @ msg @ [nl, nl] @ ''Make sure the device is connected and trusted.'') s"
  "getSimulatorLogs_event sim N (Error msg) s = resolve (''Error: '' @ msg) s"
  "streamSimulatorLogs_event sim (Error msg) t = resolve (''Error: '' @ msg) t"
  "streamDeviceLogs_event (Error msg) t = resolve (''Error: '' @ msg) t"
  "watchForPattern_event m (Error msg) w =
     resolve \<lparr>r_found = False, r_matchedLine = [], allOutput = ''Error: '' @ msg\<rparr> w"
  by (simp_all add: handler_defs)

lemma getMacLogs_spawn_failure:
  "resolved (getMacLogs subsystem process lastMinutes maxLines (Error msg # evs)) =
     Some (''Error: '' @ msg) \<and>
   \<not> unhandled (getMacLogs subsystem process lastMinutes maxLines (Error msg # evs))"
  unfolding getMacLogs_def
  by (intro conjI run_error_first run_handled)
     (simp_all add: handler_keep handler_error)

lemma getLogsByLevel_spawn_failure:
  "resolved (getLogsByLevel level process lastMinutes maxLines (Error msg # evs)) =
     Some (''Error: '' @ msg) \<and>
   \<not> unhandled (getLogsByLevel level process lastMinutes maxLines (Error msg # evs))"
  unfolding getLogsByLevel_def
  by (intro conjI run_error_first run_handled)
     (simp_all add: handler_keep handler_error)

lemma getDeviceLogs_spawn_failure:
  "resolved (getDeviceLogs True udid process lastMinutes maxLines (Error msg # evs)) =
     Some (''Error: '' @ msg @ [nl, nl] @ ''Make sure the device is connected and trusted.'') \<and>
   \<not> unhandled (getDeviceLogs True udid process lastMinutes maxLines (Error msg # evs))"
  unfolding getDeviceLogs_def if_True
  by (intro conjI run_error_first run_handled)
     (simp_all add: handler_keep handler_error)

lemma getSimulatorLogs_spawn_failure:
  assumes "findSimulator udid = Some sim" and "sim_state sim = ''Booted''"
  shows "resolved (getSimulatorLogs findSimulator udid process lastMinutes maxLines (Error msg # evs)) =
     Some (''Error: '' @ msg) \<and>
   \<not> unhandled (getSimulatorLogs findSimulator udid process lastMinutes maxLines (Error msg # evs))"
proof -
  from assms(2) have booted: "\<not> sim_state sim \<noteq> ''Booted''"
    by simp
  show ?thesis
    unfolding getSimulatorLogs_def assms(1) option.case if_not_P [OF booted]
    by (intro conjI run_error_first run_handled)
       (simp_all add: handler_keep handler_error)
qed

lemma streamSimulatorLogs_spawn_failure:
  assumes "findSimulator udid = Some sim" and "sim_state sim = ''Booted''"
  shows "resolved (streamSimulatorLogs findSimulator udid process durationSeconds (Error msg # evs)) =
     Some (''Error: '' @ msg) \<and>
   \<not> unhandled (streamSimulatorLogs findSimulator udid process durationSeconds (Error msg # evs))"
proof -
  from assms(2) have booted: "\<not> sim_state sim \<noteq> ''Booted''"
    by simp
  show ?thesis
    unfolding streamSimulatorLogs_def assms(1) option.case if_not_P [OF booted]
    by (intro conjI run_error_first run_handled)
       (simp_all add: handler_keep handler_error)
qed

lemma streamDeviceLogs_spawn_failure:
  "resolved (streamDeviceLogs has udid process durationSeconds (Error msg # evs)) =
     Some (''Error: '' @ msg) \<and>
   \<not> unhandled (streamDeviceLogs has udid process durationSeconds (Error msg # evs))"
  unfolding streamDeviceLogs_def
  by (intro conjI run_error_first run_handled)
     (simp_all add: handler_keep handler_error session_ops)

lemma searchLogs_spawn_failure:
  assumes "make_matcher RegExp query useRegex = Inr m"
  shows "resolved (searchLogs RegExp query lastMinutes maxLines useRegex (Error msg # evs)) =
     Some (''Error: '' @ msg) \<and>
   \<not> unhandled (searchLogs RegExp query lastMinutes maxLines useRegex (Error msg # evs))"
  unfolding searchLogs_def Let_def assms sum.case
  by (intro conjI run_error_first run_handled)
     (simp_all add: handler_keep handler_error)

lemma watchForPattern_spawn_failure:
  assumes "make_matcher RegExp pattern useRegex = Inr m"
  shows "resolved (watchForPattern RegExp pattern useRegex process timeoutSeconds (Error msg # evs)) =
     Some \<lparr>r_found = False, r_matchedLine = [], allOutput = ''Error: '' @ msg\<rparr> \<and>
   \<not> unhandled (watchForPattern RegExp pattern useRegex process timeoutSeconds (Error msg # evs))"
  unfolding watchForPattern_def Let_def assms sum.case
  by (intro conjI run_error_first run_handled)
     (simp_all add: watch_event_keep handler_error)

end
